theory Spec2Isabelle
  imports Main "HOL-Library.Word" "HOL-Library.Signed_Division"
begin

unbundle bit_operations_syntax

section \<open>Machine types and failures\<close>

type_synonym u8 = "8 word"
type_synonym u16 = "16 word"
type_synonym u32 = "32 word"
type_synonym u64 = "64 word"

text \<open>
  A failed \<^verbatim>\<open>ASSERT\<close> is fatal (a kernel panic); the string names the asserted
  condition. An index outside a fixed C array, a division by zero and a result of signed
  arithmetic outside the range of its type have no defined result in C and are failures
  of the model too.
\<close>

datatype panic =
    Assert_failed string
  | In_irq_handler
  | Out_of_bounds
  | Division_by_zero
  | Signed_overflow

section \<open>Tasks, wait objects and the kernel state\<close>

datatype task_state =
    TASK_STATE_RUNNABLE
  | TASK_STATE_RUNNING
  | TASK_STATE_SLEEPING
  | TASK_STATE_ZOMBIE

datatype wo_type = WOBJ_NONE | WOBJ_KMUTEX | WOBJ_OTHER

text \<open>\<^verbatim>\<open>wobj.ptr\<close> is an untyped pointer: an address, or \<open>None\<close> for \<^verbatim>\<open>NULL\<close>.\<close>

record wait_obj =
  wtype :: wo_type
  ptr :: "nat option"

record task_info =
  state :: task_state
  wobj :: wait_obj

text \<open>
  The \<^verbatim>\<open>kmutex\<close> struct: \<^verbatim>\<open>id\<close> (here \<open>mutex_id\<close>), \<^verbatim>\<open>flags\<close>,
  \<^verbatim>\<open>lock_count\<close> and \<^verbatim>\<open>owner_task\<close>, a task pointer (\<open>None\<close> is
  \<^verbatim>\<open>NULL\<close>). The counter is one of the kernel's 32-bit unsigned integers, so
  \<^verbatim>\<open>lock_count++\<close> wraps at \<open>2 ^ 32\<close>.
\<close>

record kmutex =
  mutex_id :: u32
  flags :: u32
  lock_count :: u32
  owner_task :: "nat option"

definition KMUTEX_FL_RECURSIVE :: u32 where
  "KMUTEX_FL_RECURSIVE = 1"

text \<open>An 8259 interrupt controller as seen through its two ports.\<close>

record pic8259 =
  imr :: u8
  isr :: u8
  irr :: u8
  read_isr :: bool

datatype io_event = Outb u16 u8 | Handler_call nat | Schedule_call

text \<open>
  The global state of the kernel on its single CPU. Tasks and mutexes live in memory
  and are named by their addresses; \<open>tasks\<close> and \<open>mutexes\<close> are the store.
  \<open>nested_interrupts\<close> is the stack of interrupt vectors being served, innermost
  first. \<open>io_log\<close> records, oldest first, every byte written to a port and every
  call of a registered handler or of the scheduler.
\<close>

record kernel =
  curr_task :: nat
  tasks :: "nat \<Rightarrow> task_info"
  sleeping_tasks_list :: "nat list"
  mutexes :: "nat \<Rightarrow> kmutex"
  new_mutex_id :: u32
  disable_preemption_count :: int
  nested_interrupts :: "nat list"
  interrupts_enabled :: bool
  irq_handlers :: "nat option list"
  unhandled_irq_count :: "u32 list"
  spur_irq_count :: u32
  pic1 :: pic8259
  pic2 :: pic8259
  io_log :: "io_event list"

subsection \<open>Collaborators of the mutex that are outside the sources\<close>

text \<open>Modelled from the spec: \<^verbatim>\<open>get_curr_task()\<close> (scheduler), the running task.\<close>

definition get_curr_task :: "kernel \<Rightarrow> nat" where
  "get_curr_task k = curr_task k"

text \<open>
  Modelled from the spec: \<^verbatim>\<open>disable_preemption()\<close> and \<^verbatim>\<open>enable_preemption()\<close>
  (scheduler), which increment and decrement the preemption counter.
\<close>

definition disable_preemption :: "kernel \<Rightarrow> kernel" where
  "disable_preemption k = k\<lparr>disable_preemption_count := disable_preemption_count k + 1\<rparr>"

definition enable_preemption :: "kernel \<Rightarrow> kernel" where
  "enable_preemption k = k\<lparr>disable_preemption_count := disable_preemption_count k - 1\<rparr>"

text \<open>
  Modelled from the spec: \<^verbatim>\<open>check_not_in_irq_handler()\<close> (interrupt support), the
  check that the innermost interrupt being served is not one of the IRQ vectors 32..47.
\<close>

definition in_irq_handler :: "kernel \<Rightarrow> bool" where
  "in_irq_handler k =
     (case nested_interrupts k of [] \<Rightarrow> False | v # _ \<Rightarrow> 32 \<le> v \<and> v \<le> 47)"

text \<open>
  Modelled from the spec: \<^verbatim>\<open>wait_obj_set\<close> and \<^verbatim>\<open>wait_obj_reset\<close> (wait objects),
  which assign and clear the (kind, target) pair of a task.
\<close>

definition wait_obj_set :: "nat \<Rightarrow> wo_type \<Rightarrow> nat option \<Rightarrow> kernel \<Rightarrow> kernel" where
  "wait_obj_set t ty p k =
     k\<lparr>tasks := (tasks k)(t := (tasks k t)\<lparr>wobj := \<lparr>wtype = ty, ptr = p\<rparr>\<rparr>)\<rparr>"

definition wait_obj_reset :: "nat \<Rightarrow> kernel \<Rightarrow> kernel" where
  "wait_obj_reset t k = wait_obj_set t WOBJ_NONE None k"

text \<open>
  Modelled from the spec: \<^verbatim>\<open>task_change_state\<close> (scheduler). It sets the state of
  the task and keeps the ordered collection of sleeping tasks: a task that starts to
  sleep is appended, a task that stops sleeping is removed.
\<close>

definition task_change_state :: "nat \<Rightarrow> task_state \<Rightarrow> kernel \<Rightarrow> kernel" where
  "task_change_state t st k =
     k\<lparr>tasks := (tasks k)(t := (tasks k t)\<lparr>state := st\<rparr>),
       sleeping_tasks_list :=
         (if st = TASK_STATE_SLEEPING
          then (if t \<in> set (sleeping_tasks_list k) then sleeping_tasks_list k
                else sleeping_tasks_list k @ [t])
          else removeAll t (sleeping_tasks_list k))\<rparr>"

section \<open>The kernel mutex (kmutex.c)\<close>

definition is_recursive :: "kmutex \<Rightarrow> bool" where
  "is_recursive mu = (flags mu AND KMUTEX_FL_RECURSIVE \<noteq> 0)"

definition kmutex_is_curr_task_holding_lock :: "nat \<Rightarrow> kernel \<Rightarrow> bool" where
  "kmutex_is_curr_task_holding_lock m k =
     (owner_task (mutexes k m) = Some (get_curr_task k))"

definition kmutex_zero :: kmutex where
  "kmutex_zero = \<lparr>mutex_id = 0, flags = 0, lock_count = 0, owner_task = None\<rparr>"

definition kmutex_init :: "nat \<Rightarrow> u32 \<Rightarrow> kernel \<Rightarrow> kernel" where
  "kmutex_init m fl k =
     k\<lparr>mutexes := (mutexes k)(m := kmutex_zero\<lparr>mutex_id := new_mutex_id k, flags := fl\<rparr>),
       new_mutex_id := new_mutex_id k + 1\<rparr>"

definition kmutex_destroy :: "nat \<Rightarrow> kernel \<Rightarrow> kernel" where
  "kmutex_destroy m k = k\<lparr>mutexes := (mutexes k)(m := kmutex_zero)\<rparr>"

text \<open>
  \<^verbatim>\<open>kmutex_lock\<close> either returns with the lock taken, or puts the running task to
  sleep and calls \<^verbatim>\<open>kernel_yield()\<close>. The yield gives the CPU to other tasks, so the
  call is modelled in two parts: \<open>kmutex_lock\<close> up to the yield, and
  \<open>kmutex_lock_resumed\<close>, the assertions made once the task runs again.
\<close>

datatype lock_path = Lock_taken | Lock_yielded

definition kmutex_lock_sleep :: "nat \<Rightarrow> kernel \<Rightarrow> panic + (lock_path \<times> kernel)" where
  "kmutex_lock_sleep m k =
     (let k1 = wait_obj_set (get_curr_task k) WOBJ_KMUTEX (Some m) k;
          k2 = task_change_state (get_curr_task k1) TASK_STATE_SLEEPING k1
      in Inr (Lock_yielded, enable_preemption k2))"

definition kmutex_lock :: "nat \<Rightarrow> kernel \<Rightarrow> panic + (lock_path \<times> kernel)" where
  "kmutex_lock m k0 =
     (if in_irq_handler k0 then Inl In_irq_handler
      else
        let k = disable_preemption k0; mu = mutexes k m in
        if owner_task mu = None then
          let mu1 = mu\<lparr>owner_task := Some (get_curr_task k)\<rparr>;
              mu2 = (if is_recursive mu1 then mu1\<lparr>lock_count := lock_count mu1 + 1\<rparr>
                     else mu1)
          in Inr (Lock_taken, enable_preemption (k\<lparr>mutexes := (mutexes k)(m := mu2)\<rparr>))
        else if is_recursive mu then
          (if \<not> 0 < lock_count mu then Inl (Assert_failed ''m->lock_count > 0'')
           else if kmutex_is_curr_task_holding_lock m k then
             Inr (Lock_taken,
                  enable_preemption
                    (k\<lparr>mutexes := (mutexes k)(m := mu\<lparr>lock_count := lock_count mu + 1\<rparr>)\<rparr>))
           else kmutex_lock_sleep m k)
        else
          (if kmutex_is_curr_task_holding_lock m k
           then Inl (Assert_failed ''!kmutex_is_curr_task_holding_lock(m)'')
           else kmutex_lock_sleep m k))"

definition kmutex_lock_resumed :: "nat \<Rightarrow> kernel \<Rightarrow> panic + kernel" where
  "kmutex_lock_resumed m k =
     (if \<not> kmutex_is_curr_task_holding_lock m k
      then Inl (Assert_failed ''kmutex_is_curr_task_holding_lock(m)'')
      else if is_recursive (mutexes k m) \<and> lock_count (mutexes k m) \<noteq> 1
      then Inl (Assert_failed ''m->lock_count == 1'')
      else Inr k)"

definition kmutex_trylock :: "nat \<Rightarrow> kernel \<Rightarrow> panic + (bool \<times> kernel)" where
  "kmutex_trylock m k0 =
     (if in_irq_handler k0 then Inl In_irq_handler
      else
        let k = disable_preemption k0; mu = mutexes k m in
        if owner_task mu = None then
          let mu1 = mu\<lparr>owner_task := Some (get_curr_task k)\<rparr>;
              mu2 = (if is_recursive mu1 then mu1\<lparr>lock_count := lock_count mu1 + 1\<rparr>
                     else mu1)
          in Inr (True, enable_preemption (k\<lparr>mutexes := (mutexes k)(m := mu2)\<rparr>))
        else if is_recursive mu \<and> kmutex_is_curr_task_holding_lock m k then
          Inr (True,
               enable_preemption
                 (k\<lparr>mutexes := (mutexes k)(m := mu\<lparr>lock_count := lock_count mu + 1\<rparr>)\<rparr>))
        else Inr (False, enable_preemption k))"

text \<open>
  The scan of \<^verbatim>\<open>kmutex_unlock\<close> over the sleeping tasks, in list order. It stops
  (\<^verbatim>\<open>break\<close>) at the first task whose wait object points at the mutex.
\<close>

fun kmutex_wake_one :: "nat \<Rightarrow> nat list \<Rightarrow> kernel \<Rightarrow> panic + kernel" where
  "kmutex_wake_one m [] k = Inr k"
| "kmutex_wake_one m (pos # rest) k =
     (if state (tasks k pos) \<noteq> TASK_STATE_SLEEPING
      then Inl (Assert_failed ''pos->state == TASK_STATE_SLEEPING'')
      else if ptr (wobj (tasks k pos)) = Some m then
        let mu = (mutexes k m)\<lparr>owner_task := Some pos\<rparr>;
            mu' = (if is_recursive mu then mu\<lparr>lock_count := lock_count mu + 1\<rparr> else mu);
            k1 = k\<lparr>mutexes := (mutexes k)(m := mu')\<rparr>;
            k2 = wait_obj_reset pos k1
        in Inr (task_change_state pos TASK_STATE_RUNNABLE k2)
      else kmutex_wake_one m rest k)"

definition kmutex_release :: "nat \<Rightarrow> kernel \<Rightarrow> panic + kernel" where
  "kmutex_release m k =
     (let k1 = k\<lparr>mutexes := (mutexes k)(m := (mutexes k m)\<lparr>owner_task := None\<rparr>)\<rparr>
      in case kmutex_wake_one m (sleeping_tasks_list k1) k1 of
           Inl p \<Rightarrow> Inl p
         | Inr k2 \<Rightarrow> Inr (enable_preemption k2))"

definition kmutex_unlock :: "nat \<Rightarrow> kernel \<Rightarrow> panic + kernel" where
  "kmutex_unlock m k0 =
     (if in_irq_handler k0 then Inl In_irq_handler
      else
        let k = disable_preemption k0 in
        if \<not> kmutex_is_curr_task_holding_lock m k
        then Inl (Assert_failed ''kmutex_is_curr_task_holding_lock(m)'')
        else if is_recursive (mutexes k m) then
          (if \<not> 0 < lock_count (mutexes k m) then Inl (Assert_failed ''m->lock_count > 0'')
           else
             let mu = (mutexes k m)\<lparr>lock_count := lock_count (mutexes k m) - 1\<rparr>;
                 k1 = k\<lparr>mutexes := (mutexes k)(m := mu)\<rparr>
             in if 0 < lock_count mu then Inr (enable_preemption k1)
                else kmutex_release m k1)
        else kmutex_release m k)"

section \<open>The 8259 interrupt controllers and the IRQ dispatcher (irq.c)\<close>

definition PIC1_COMMAND :: u16 where "PIC1_COMMAND = 0x20"
definition PIC1_DATA :: u16 where "PIC1_DATA = 0x21"
definition PIC2_COMMAND :: u16 where "PIC2_COMMAND = 0xA0"
definition PIC2_DATA :: u16 where "PIC2_DATA = 0xA1"
definition PIC_EOI :: u8 where "PIC_EOI = 0x20"
definition PIC_READ_IRR :: u8 where "PIC_READ_IRR = 0x0a"
definition PIC_READ_ISR :: u8 where "PIC_READ_ISR = 0x0b"

text \<open>
  Modelled from the spec: the port instructions \<^verbatim>\<open>outb\<close> and \<^verbatim>\<open>inb\<close> and the
  two controllers behind the ports (master command 0x20 / data 0x21, slave command
  0xA0 / data 0xA1). A byte written to a data port is the new mask register; the OCW3
  bytes written to a command port select the register (ISR or IRR) that the next read
  of that port returns; every written byte is appended to \<open>io_log\<close>. What the
  hardware does with the other command bytes (the end-of-interrupt among them) is
  outside the model.
\<close>

definition pic_command :: "u8 \<Rightarrow> pic8259 \<Rightarrow> pic8259" where
  "pic_command v p =
     (if v = PIC_READ_ISR then p\<lparr>read_isr := True\<rparr>
      else if v = PIC_READ_IRR then p\<lparr>read_isr := False\<rparr>
      else p)"

definition outb :: "u16 \<Rightarrow> u8 \<Rightarrow> kernel \<Rightarrow> kernel" where
  "outb port v k =
     (let k' = k\<lparr>io_log := io_log k @ [Outb port v]\<rparr> in
      if port = PIC1_COMMAND then k'\<lparr>pic1 := pic_command v (pic1 k')\<rparr>
      else if port = PIC2_COMMAND then k'\<lparr>pic2 := pic_command v (pic2 k')\<rparr>
      else if port = PIC1_DATA then k'\<lparr>pic1 := (pic1 k')\<lparr>imr := v\<rparr>\<rparr>
      else if port = PIC2_DATA then k'\<lparr>pic2 := (pic2 k')\<lparr>imr := v\<rparr>\<rparr>
      else k')"

definition pic_read :: "pic8259 \<Rightarrow> u8" where
  "pic_read p = (if read_isr p then isr p else irr p)"

definition inb :: "u16 \<Rightarrow> kernel \<Rightarrow> u8" where
  "inb port k =
     (if port = PIC1_COMMAND then pic_read (pic1 k)
      else if port = PIC2_COMMAND then pic_read (pic2 k)
      else if port = PIC1_DATA then imr (pic1 k)
      else if port = PIC2_DATA then imr (pic2 k)
      else 0)"

text \<open>
  A handler is a function pointer: an address, or \<open>None\<close> for \<^verbatim>\<open>NULL\<close>. The
  array \<^verbatim>\<open>irq_handlers\<close> has 16 slots; \<open>irq\<close> is a \<^verbatim>\<open>u8\<close>.
\<close>

definition irq_set_mask :: "int \<Rightarrow> kernel \<Rightarrow> panic + kernel" where
  "irq_set_mask irq k =
     (if \<not> (0 \<le> irq \<and> irq \<le> 32) then Inl (Assert_failed ''0 <= irq && irq <= 32'')
      else
        let port = (if irq < 8 then PIC1_DATA else PIC2_DATA);
            irq' = (if irq < 8 then irq else irq - 8);
            irq_mask = inb port k OR push_bit (nat irq') 1
        in Inr (outb port irq_mask k))"

definition irq_clear_mask :: "int \<Rightarrow> kernel \<Rightarrow> panic + kernel" where
  "irq_clear_mask irq k =
     (if \<not> (0 \<le> irq \<and> irq \<le> 32) then Inl (Assert_failed ''0 <= irq && irq <= 32'')
      else
        let port = (if irq < 8 then PIC1_DATA else PIC2_DATA);
            irq' = (if irq < 8 then irq else irq - 8)
        in Inr (outb port (inb port k AND NOT (push_bit (nat irq') 1)) k))"

definition irq_install_handler :: "nat \<Rightarrow> nat option \<Rightarrow> kernel \<Rightarrow> panic + kernel" where
  "irq_install_handler irq h k =
     (if \<not> irq < length (irq_handlers k) then Inl Out_of_bounds
      else irq_clear_mask (int irq) (k\<lparr>irq_handlers := (irq_handlers k)[irq := h]\<rparr>))"

definition irq_uninstall_handler :: "nat \<Rightarrow> kernel \<Rightarrow> panic + kernel" where
  "irq_uninstall_handler irq k =
     (if \<not> irq < length (irq_handlers k) then Inl Out_of_bounds
      else Inr (k\<lparr>irq_handlers := (irq_handlers k)[irq := None]\<rparr>))"

definition pic_send_eoi :: "int \<Rightarrow> kernel \<Rightarrow> panic + kernel" where
  "pic_send_eoi irq k =
     (if \<not> (0 \<le> irq \<and> irq \<le> 256) then Inl (Assert_failed ''0 <= irq && irq <= 256'')
      else
        let k1 = (if irq \<ge> 8 then outb PIC2_COMMAND PIC_EOI k else k)
        in Inr (outb PIC1_COMMAND PIC_EOI k1))"

definition pic_get_irq_reg :: "u8 \<Rightarrow> kernel \<Rightarrow> u16 \<times> kernel" where
  "pic_get_irq_reg ocw3 k =
     (let k1 = outb PIC1_COMMAND ocw3 k;
          k2 = outb PIC2_COMMAND ocw3 k1;
          lo = (ucast (inb PIC1_COMMAND k2) :: u16);
          result = lo OR push_bit 8 (ucast (inb PIC2_COMMAND k2))
      in (result, k2))"

definition pic_get_irr :: "kernel \<Rightarrow> u16 \<times> kernel" where
  "pic_get_irr k = pic_get_irq_reg PIC_READ_IRR k"

definition pic_get_isr :: "kernel \<Rightarrow> u16 \<times> kernel" where
  "pic_get_isr k = pic_get_irq_reg PIC_READ_ISR k"

text \<open>
  \<^verbatim>\<open>setup_irq_handling\<close> after the remapping of the vectors: the loop that masks
  the 16 lines, from line \<open>i\<close> on. (The remapping restores the mask registers it
  found, and the interrupt descriptor table is outside the model.)
\<close>

function setup_irq_mask_from :: "nat \<Rightarrow> kernel \<Rightarrow> panic + kernel" where
  "setup_irq_mask_from i k =
     (if i < 16 then
        (case irq_set_mask (int i) k of
           Inl p \<Rightarrow> Inl p
         | Inr k' \<Rightarrow> setup_irq_mask_from (i + 1) k')
      else Inr k)"
  by pat_completeness auto
termination
  by (relation "measure (\<lambda>(i, k). 16 - i)") auto

declare setup_irq_mask_from.simps [simp del]

text \<open>\<^verbatim>\<open>KERNEL_TRACK_NESTED_INTERRUPTS\<close> is a build option, the parameter \<open>track\<close>.\<close>

definition handle_irq_set_mask :: "bool \<Rightarrow> int \<Rightarrow> kernel \<Rightarrow> panic + kernel" where
  "handle_irq_set_mask track irq k =
     (if track then (if irq \<noteq> 0 then irq_set_mask irq k else Inr k)
      else irq_set_mask irq k)"

definition handle_irq_clear_mask :: "bool \<Rightarrow> int \<Rightarrow> kernel \<Rightarrow> panic + kernel" where
  "handle_irq_clear_mask track irq k =
     (if track then (if irq \<noteq> 0 then irq_clear_mask irq k else Inr k)
      else irq_clear_mask irq k)"

record regs =
  int_num :: u32

text \<open>
  Modelled from the spec: \<^verbatim>\<open>push_nested_interrupt\<close> and \<^verbatim>\<open>pop_nested_interrupt\<close>
  (interrupt support), which maintain the stack of vectors being served.
\<close>

definition push_nested_interrupt :: "u32 \<Rightarrow> kernel \<Rightarrow> kernel" where
  "push_nested_interrupt v k = k\<lparr>nested_interrupts := unat v # nested_interrupts k\<rparr>"

definition pop_nested_interrupt :: "kernel \<Rightarrow> kernel" where
  "pop_nested_interrupt k = k\<lparr>nested_interrupts := tl (nested_interrupts k)\<rparr>"

text \<open>
  The end of \<^verbatim>\<open>handle_irq\<close>, after the line has been unmasked again. The registered
  handlers and the scheduler are code outside this file: \<open>sched r\<close> stands for
  \<^verbatim>\<open>save_current_task_state(r)\<close> followed by
  \<^verbatim>\<open>schedule_outside_interrupt_context()\<close>, when it returns.
\<close>

definition handle_irq_bottom ::
    "(regs \<Rightarrow> kernel \<Rightarrow> kernel) \<Rightarrow> regs \<Rightarrow> int \<Rightarrow> kernel \<Rightarrow> kernel" where
  "handle_irq_bottom sched r handler_ret k =
     (if handler_ret = 0 then k
      else
        let k1 = disable_preemption k in
        if disable_preemption_count k1 > 1 then enable_preemption k1
        else
          let k2 = sched r (k1\<lparr>io_log := io_log k1 @ [Schedule_call]\<rparr>)
          in enable_preemption k2)"

text \<open>
  \<^verbatim>\<open>handle_irq\<close>, in three parts: the call of the registered handler
  (\<open>call_irq_handler\<close>), the servicing of a genuine interrupt from the masking of
  the line on (\<open>handle_irq_serve\<close>), and the function itself with its check for a
  spurious interrupt. \<open>run h r\<close> is the behaviour of the handler at address \<open>h\<close>:
  its return value and its effect on the kernel state; each call is recorded in
  \<open>io_log\<close>.
\<close>

definition call_irq_handler ::
    "(nat \<Rightarrow> regs \<Rightarrow> kernel \<Rightarrow> int \<times> kernel) \<Rightarrow> regs \<Rightarrow> int \<Rightarrow> kernel
       \<Rightarrow> panic + (int \<times> kernel)" where
  "call_irq_handler run r irq k =
     (if \<not> (0 \<le> irq \<and> nat irq < length (irq_handlers k)) then Inl Out_of_bounds
      else
        case irq_handlers k ! nat irq of
          Some h \<Rightarrow> Inr (run h r (k\<lparr>io_log := io_log k @ [Handler_call (nat irq)]\<rparr>))
        | None \<Rightarrow>
            if \<not> nat irq < length (unhandled_irq_count k) then Inl Out_of_bounds
            else Inr (0, k\<lparr>unhandled_irq_count :=
                   (unhandled_irq_count k)[nat irq := unhandled_irq_count k ! nat irq + 1]\<rparr>))"

definition handle_irq_serve ::
    "bool \<Rightarrow> (nat \<Rightarrow> regs \<Rightarrow> kernel \<Rightarrow> int \<times> kernel) \<Rightarrow> (regs \<Rightarrow> kernel \<Rightarrow> kernel)
       \<Rightarrow> regs \<Rightarrow> int \<Rightarrow> kernel \<Rightarrow> panic + kernel" where
  "handle_irq_serve track run sched r irq k =
     (case handle_irq_set_mask track irq k of
        Inl p \<Rightarrow> Inl p
      | Inr k1 \<Rightarrow>
          (let k2 = push_nested_interrupt (int_num r) (disable_preemption k1) in
           if interrupts_enabled k2 then Inl (Assert_failed ''!are_interrupts_enabled()'')
           else
             (case pic_send_eoi irq k2 of
                Inl p \<Rightarrow> Inl p
              | Inr k3 \<Rightarrow>
                  (case call_irq_handler run r irq (k3\<lparr>interrupts_enabled := True\<rparr>) of
                     Inl p \<Rightarrow> Inl p
                   | Inr (handler_ret, k5) \<Rightarrow>
                       (case handle_irq_clear_mask track irq
                               (enable_preemption (pop_nested_interrupt k5)) of
                          Inl p \<Rightarrow> Inl p
                        | Inr k6 \<Rightarrow> Inr (handle_irq_bottom sched r handler_ret k6))))))"

definition handle_irq ::
    "bool \<Rightarrow> (nat \<Rightarrow> regs \<Rightarrow> kernel \<Rightarrow> int \<times> kernel) \<Rightarrow> (regs \<Rightarrow> kernel \<Rightarrow> kernel)
       \<Rightarrow> regs \<Rightarrow> kernel \<Rightarrow> panic + kernel" where
  "handle_irq track run sched r k =
     (let irq = sint (int_num r - 32) in
      if irq = 7 \<or> irq = 15 then
        (let (isr_val, k0) = pic_get_isr k in
         if \<not> bit isr_val (nat irq) then
           (case (if irq = 15 then pic_send_eoi 7 k0 else Inr k0) of
              Inl p \<Rightarrow> Inl p
            | Inr k1 \<Rightarrow> Inr (k1\<lparr>spur_irq_count := spur_irq_count k1 + 1\<rparr>))
         else handle_irq_serve track run sched r irq k0)
      else handle_irq_serve track run sched r irq k)"

section \<open>The file-system switch: stat (vfs.c)\<close>

text \<open>
  The functions \<^verbatim>\<open>vfs_stat64\<close> calls are outside the sources: \<^verbatim>\<open>vfs_open\<close>,
  \<^verbatim>\<open>vfs_close\<close>, the shared lock of a handle and the driver's \<^verbatim>\<open>fstat\<close>. They
  are parameters, acting on a state \<open>'w\<close> of the file systems; a handle and the
  \<^verbatim>\<open>statbuf\<close> are addresses. \<open>env_open\<close> returns the result code and the handle
  it stored (\<open>None\<close> is \<^verbatim>\<open>NULL\<close>).
\<close>

record 'w vfs_env =
  env_open :: "string \<Rightarrow> int \<Rightarrow> int \<Rightarrow> 'w \<Rightarrow> (int \<times> nat option) \<times> 'w"
  env_close :: "nat \<Rightarrow> 'w \<Rightarrow> 'w"
  env_shlock :: "nat \<Rightarrow> 'w \<Rightarrow> 'w"
  env_shunlock :: "nat \<Rightarrow> 'w \<Rightarrow> 'w"
  env_fstat :: "nat \<Rightarrow> nat \<Rightarrow> 'w \<Rightarrow> int \<times> 'w"

definition O_RDONLY :: int where "O_RDONLY = 0"

definition vfs_fstat64 :: "'w vfs_env \<Rightarrow> nat \<Rightarrow> nat \<Rightarrow> 'w \<Rightarrow> int \<times> 'w" where
  "vfs_fstat64 env h statbuf w =
     (let w1 = env_shlock env h w;
          (ret, w2) = env_fstat env h statbuf w1;
          w3 = env_shunlock env h w2
      in (ret, w3))"

definition vfs_stat64 :: "'w vfs_env \<Rightarrow> string \<Rightarrow> nat \<Rightarrow> 'w \<Rightarrow> panic + (int \<times> 'w)" where
  "vfs_stat64 env path statbuf w =
     (let ((rc, h), w1) = env_open env path O_RDONLY 0 w in
      if rc < 0 then Inr (rc, w1)
      else
        case h of
          None \<Rightarrow> Inl (Assert_failed ''h != NULL'')
        | Some hp \<Rightarrow>
            let (rc', w2) = vfs_fstat64 env hp statbuf w1;
                w3 = env_close env hp w2
            in Inr (0, w3))"

section \<open>The file-system switch: getdents64 (vfs.c)\<close>

definition EINVAL :: int where "EINVAL = 22"
definition EFAULT :: int where "EFAULT = 14"

datatype vfs_entry_type =
    VFS_NONE
  | VFS_FILE
  | VFS_DIR
  | VFS_SYMLINK
  | VFS_CHAR_DEV
  | VFS_BLOCK_DEV
  | VFS_PIPE

text \<open>
  A directory entry as the driver passes it to the callback. \<open>name\<close> is a C string:
  it ends at its first NUL character, or at its end.
\<close>

record vfs_dent64 =
  ino :: u64
  type :: vfs_entry_type
  name :: string

definition strlen :: "string \<Rightarrow> nat" where
  "strlen s = length (takeWhile (\<lambda>c. c \<noteq> CHR 0x00) s)"

definition c_bytes :: "string \<Rightarrow> u8 list" where
  "c_bytes s = map of_char (takeWhile (\<lambda>c. c \<noteq> CHR 0x00) s) @ [0]"

record linux_dirent64 =
  d_ino :: u64
  d_off :: u64
  d_reclen :: u16
  d_type :: u8

text \<open>
  Modelled from the spec: the bytes of a \<^verbatim>\<open>struct linux_dirent64\<close> in memory (its
  declaration is outside the sources), after the wire layout
  \<^verbatim>\<open>{u64 d_ino, s64 d_off, u16 d_reclen, u8 d_type, char d_name[]}\<close> on a
  little-endian machine: the fields at offsets 0, 8, 16 and 18, and \<^verbatim>\<open>d_name\<close> at
  offset 19. \<open>sz\<close> is \<^verbatim>\<open>sizeof(struct linux_dirent64)\<close>, 19 bytes and the padding
  the compiler adds, which the zero-initialised context leaves 0.
\<close>

definition le_bytes :: "nat \<Rightarrow> 'a::len word \<Rightarrow> u8 list" where
  "le_bytes n w = map (\<lambda>i. ucast (drop_bit (8 * i) w)) [0..<n]"

definition dirent_bytes :: "nat \<Rightarrow> linux_dirent64 \<Rightarrow> u8 list" where
  "dirent_bytes sz en =
     le_bytes 8 (d_ino en) @ le_bytes 8 (d_off en) @ le_bytes 2 (d_reclen en)
       @ [d_type en] @ replicate (sz - 19) 0"

definition d_name_offset :: nat where
  "d_name_offset = 19"

text \<open>
  Modelled from the spec: \<^verbatim>\<open>copy_to_user\<close>, the fallible copy to user memory. The
  user memory is the list of the bytes that are mapped from the address \<^verbatim>\<open>dirp\<close>
  on; a copy that leaves it fails, after the bytes that fit have been written.
\<close>

definition copy_to_user :: "u8 list \<Rightarrow> nat \<Rightarrow> u8 list \<Rightarrow> int \<times> u8 list" where
  "copy_to_user mem off bytes =
     (if off + length bytes \<le> length mem
      then (0, take off mem @ bytes @ drop (off + length bytes) mem)
      else (- 1, take off mem @ take (length mem - off) bytes))"

text \<open>
  \<^verbatim>\<open>vfs_getdents_ctx\<close> together with what it points to: \<open>h_pos\<close> is
  \<^verbatim>\<open>ctx->h->pos\<close>, the position stored in the handle, and \<open>user_mem\<close> is the
  user memory at \<^verbatim>\<open>ctx->dirp\<close>.
\<close>

record vfs_getdents_ctx =
  h_pos :: int
  user_mem :: "u8 list"
  buf_size :: u32
  offset :: u32
  curr_index :: int
  ent :: linux_dirent64

definition DT_UNKNOWN :: u8 where "DT_UNKNOWN = 0"
definition DT_FIFO :: u8 where "DT_FIFO = 1"
definition DT_CHR :: u8 where "DT_CHR = 2"
definition DT_DIR :: u8 where "DT_DIR = 4"
definition DT_BLK :: u8 where "DT_BLK = 6"
definition DT_REG :: u8 where "DT_REG = 8"
definition DT_LNK :: u8 where "DT_LNK = 10"

fun vfs_type_to_linux_dirent_type :: "vfs_entry_type \<Rightarrow> panic + u8" where
  "vfs_type_to_linux_dirent_type VFS_NONE = Inl (Assert_failed ''t != VFS_NONE'')"
| "vfs_type_to_linux_dirent_type VFS_FILE = Inr DT_REG"
| "vfs_type_to_linux_dirent_type VFS_DIR = Inr DT_DIR"
| "vfs_type_to_linux_dirent_type VFS_SYMLINK = Inr DT_LNK"
| "vfs_type_to_linux_dirent_type VFS_CHAR_DEV = Inr DT_CHR"
| "vfs_type_to_linux_dirent_type VFS_BLOCK_DEV = Inr DT_BLK"
| "vfs_type_to_linux_dirent_type VFS_PIPE = Inr DT_FIFO"

text \<open>
  The callback. \<^verbatim>\<open>fl\<close> and \<^verbatim>\<open>entry_size\<close> are 16-bit, \<^verbatim>\<open>offset\<close> and
  \<^verbatim>\<open>buf_size\<close> 32-bit unsigned integers; \<^verbatim>\<open>(int) ctx->offset\<close> reads the 32 bits
  as a signed integer.
\<close>

definition vfs_getdents_cb ::
    "nat \<Rightarrow> vfs_dent64 \<Rightarrow> vfs_getdents_ctx \<Rightarrow> panic + (int \<times> vfs_getdents_ctx)" where
  "vfs_getdents_cb sz vde ctx =
     (if curr_index ctx < h_pos ctx then Inr (0, ctx\<lparr>curr_index := curr_index ctx + 1\<rparr>)
      else
        let fl = (of_nat (strlen (name vde)) :: u16);
            entry_size = (of_nat sz + fl + 1 :: u16)
        in
        if offset ctx + ucast entry_size > buf_size ctx then
          (if offset ctx = 0 then Inr (- EINVAL, ctx) else Inr (sint (offset ctx), ctx))
        else
          case vfs_type_to_linux_dirent_type (type vde) of
            Inl p \<Rightarrow> Inl p
          | Inr ty \<Rightarrow>
              (let ctx1 = ctx\<lparr>ent := \<lparr>d_ino = ino vde,
                                      d_off = ucast (offset ctx + ucast entry_size),
                                      d_reclen = entry_size,
                                      d_type = ty\<rparr>\<rparr>;
                   user_ent = unat (offset ctx1);
                   (rc1, mem1) = copy_to_user (user_mem ctx1) user_ent (dirent_bytes sz (ent ctx1))
               in
               if rc1 < 0 then Inr (- EFAULT, ctx1\<lparr>user_mem := mem1\<rparr>)
               else
                 (let (rc2, mem2) = copy_to_user mem1 (user_ent + d_name_offset)
                                      (take (unat fl + 1) (c_bytes (name vde)))
                  in
                  if rc2 < 0 then Inr (- EFAULT, ctx1\<lparr>user_mem := mem2\<rparr>)
                  else Inr (0, ctx1\<lparr>user_mem := mem2,
                                    offset := offset ctx1 + ucast entry_size,
                                    curr_index := curr_index ctx1 + 1,
                                    h_pos := h_pos ctx1 + 1\<rparr>))))"

text \<open>
  Modelled from the spec: \<^verbatim>\<open>fsops->getdents\<close>, the directory walk of the driver
  (for FAT it is \<^verbatim>\<open>fat_walk_directory\<close>, outside the sources). The driver passes
  every entry of the directory, in order, to the callback; it stops at the first call
  that does not return 0 and forwards that value.
\<close>

fun getdents_walk ::
    "nat \<Rightarrow> vfs_dent64 list \<Rightarrow> vfs_getdents_ctx \<Rightarrow> panic + (int \<times> vfs_getdents_ctx)" where
  "getdents_walk sz [] ctx = Inr (0, ctx)"
| "getdents_walk sz (vde # rest) ctx =
     (case vfs_getdents_cb sz vde ctx of
        Inl p \<Rightarrow> Inl p
      | Inr (rc, ctx') \<Rightarrow> if rc \<noteq> 0 then Inr (rc, ctx') else getdents_walk sz rest ctx')"

text \<open>
  \<^verbatim>\<open>vfs_getdents64\<close> on a directory with the entries \<open>dir\<close>, for a handle at
  position \<open>p\<close> and the user memory \<open>mem\<close>: the return value, the position of the
  handle and the user memory after the call.
\<close>

definition vfs_getdents64 ::
    "nat \<Rightarrow> vfs_dent64 list \<Rightarrow> int \<Rightarrow> u8 list \<Rightarrow> u32 \<Rightarrow> panic + (int \<times> int \<times> u8 list)" where
  "vfs_getdents64 sz dir p mem bsize =
     (let ctx = \<lparr>h_pos = p, user_mem = mem, buf_size = bsize, offset = 0, curr_index = 0,
                 ent = \<lparr>d_ino = 0, d_off = 0, d_reclen = 0, d_type = 0\<rparr>\<rparr>
      in case getdents_walk sz dir ctx of
           Inl p \<Rightarrow> Inl p
         | Inr (rc, ctx') \<Rightarrow>
             Inr (if rc = 0 then sint (offset ctx') else rc, h_pos ctx', user_mem ctx'))"

section \<open>The FAT driver: read and seek (fat32.c)\<close>

definition SEEK_SET :: int where "SEEK_SET = 0"
definition SEEK_CUR :: int where "SEEK_CUR = 1"
definition SEEK_END :: int where "SEEK_END = 2"

text \<open>
  Modelled from the spec: the type \<^verbatim>\<open>offt\<close> of positions and distances, whose
  declaration is outside the sources. It is the signed machine word of the kernel, of
  32 bits on its i386 target, where \<^verbatim>\<open>size_t\<close> is the unsigned word of 32 bits. A
  value of \<^verbatim>\<open>offt\<close> is an integer in the range of \<open>offt_ok\<close>. The conversion
  \<^verbatim>\<open>(offt)x\<close> of an unsigned 32-bit value reads the same bits as a signed number
  (\<open>sint\<close>), so it is negative from \<open>2\<^sup>3\<^sup>1\<close> on. A sum or difference of two
  values that leaves the range has no defined result.
\<close>

definition offt_ok :: "int \<Rightarrow> bool" where
  "offt_ok x \<longleftrightarrow> - (2 ^ 31) \<le> x \<and> x < 2 ^ 31"

text \<open>
  A directory entry, with the fields the driver reads. \<open>first_cluster\<close> is what
  \<^verbatim>\<open>fat_get_first_cluster\<close> (the FAT base library, outside the sources) computes from
  the entry.
\<close>

record fat_entry =
  DIR_FileSize :: u32
  directory :: bool
  volume_id :: bool
  first_cluster :: u32

text \<open>
  The mounted image (\<^verbatim>\<open>fat_fs_device_data\<close> and the header it points to), seen
  through the functions of the FAT base library, which are outside the sources and are
  parameters here: \<open>cluster_data c i\<close> is the byte at offset \<open>i\<close> from
  \<^verbatim>\<open>fat_get_pointer_to_cluster_data(hdr, c)\<close>, \<open>fat_next c\<close> is
  \<^verbatim>\<open>fat_read_fat_entry(hdr, type, c, 0)\<close>, \<open>is_eoc\<close> and \<open>is_bad\<close> are
  \<^verbatim>\<open>fat_is_end_of_clusterchain\<close> and \<^verbatim>\<open>fat_is_bad_cluster\<close> for the type of the
  image, and \<open>count_dirents\<close> is \<^verbatim>\<open>fat_count_dirents\<close>, whose directory walk is
  outside the sources too.
\<close>

record fat_fs_device_data =
  cluster_size :: u32
  cluster_data :: "u32 \<Rightarrow> nat \<Rightarrow> u8"
  fat_next :: "u32 \<Rightarrow> u32"
  is_eoc :: "u32 \<Rightarrow> bool"
  is_bad :: "u32 \<Rightarrow> bool"
  count_dirents :: "fat_entry \<Rightarrow> int"

text \<open>A FAT file handle; \<open>pos\<close> is a value of \<^verbatim>\<open>offt\<close>.\<close>

record fat_handle =
  e :: fat_entry
  pos :: int
  curr_cluster :: u32





definition fat_rewind :: "fat_handle \<Rightarrow> fat_handle" where
  "fat_rewind h = h\<lparr>pos := 0, curr_cluster := first_cluster (e h)\<rparr>"

text \<open>
  The loop of \<^verbatim>\<open>fat_seek_forward\<close>; the result is the handle. As in the loop of
  \<^verbatim>\<open>fat_read\<close>, the three differences are the results that can leave the range of
  \<^verbatim>\<open>offt\<close>.
\<close>

function fat_seek_forward_loop ::
    "fat_fs_device_data \<Rightarrow> int \<Rightarrow> int \<Rightarrow> fat_handle \<Rightarrow> int \<Rightarrow> panic + fat_handle" where
  "fat_seek_forward_loop d fsize dist h moved_distance =
     (if cluster_size d = 0 then Inl Division_by_zero
      else
        let file_rem = fsize - pos h;
            dist_rem = dist - moved_distance;
            cluster_off = pos h smod sint (cluster_size d);
            cluster_rem = sint (cluster_size d) - cluster_off;
            to_move = min cluster_rem (min dist_rem file_rem)
        in
        if \<not> (offt_ok file_rem \<and> offt_ok dist_rem \<and> offt_ok cluster_rem)
        then Inl Signed_overflow
        else if \<not> 0 \<le> to_move then Inl (Assert_failed ''to_move >= 0'')
        else
          (let moved' = moved_distance + to_move;
               h' = h\<lparr>pos := pos h + to_move\<rparr>
           in
           if to_move < cluster_rem then Inr h'
           else
             (let fatval = fat_next d (curr_cluster h') in
              if is_eoc d fatval then
                (if pos h' \<noteq> fsize then Inl (Assert_failed ''h->pos == fsize'')
                 else Inr h')
              else if is_bad d fatval
              then Inl (Assert_failed ''!fat_is_bad_cluster(d->type, fatval)'')
              else fat_seek_forward_loop d fsize dist (h'\<lparr>curr_cluster := fatval\<rparr>) moved')))"
  by pat_completeness auto
termination
proof (relation "measure (\<lambda>(d, fsize, dist, h, m). nat (fsize - pos h))")
  show "wf (measure (\<lambda>(d, fsize, dist, h, m). nat (fsize - pos h)))"
    by simp
next
  fix d :: fat_fs_device_data and fsize dist :: int and h :: fat_handle
    and m file_rem dist_rem cluster_off cluster_rem to_move m' :: int
    and h' :: fat_handle and fatval :: u32
  assume cs: "cluster_size d \<noteq> 0"
    and defs: "file_rem = fsize - pos h" "cluster_off = pos h smod sint (cluster_size d)"
      "cluster_rem = sint (cluster_size d) - cluster_off"
      "to_move = min cluster_rem (min dist_rem file_rem)"
      "h' = h\<lparr>pos := pos h + to_move\<rparr>"
    and nonneg: "\<not> \<not> 0 \<le> to_move"
    and full: "\<not> to_move < cluster_rem"
  have "sint (cluster_size d) \<noteq> 0"
    using cs by (simp add: signed_eq_0_iff)
  then have "cluster_rem \<noteq> 0"
    using smod_int_range [of "sint (cluster_size d)" "pos h"] defs(2,3) by auto
  moreover have "to_move \<le> cluster_rem" using defs(4) by simp
  ultimately have "0 < to_move" using full nonneg by simp
  moreover have "to_move \<le> file_rem" using defs(4) by simp
  ultimately show "((d, fsize, dist, h'\<lparr>curr_cluster := fatval\<rparr>, m'), (d, fsize, dist, h, m))
          \<in> measure (\<lambda>(d, fsize, dist, h, m). nat (fsize - pos h))"
    using defs(1,5) by simp
qed

declare fat_seek_forward_loop.simps [simp del]

definition fat_seek_forward ::
    "fat_fs_device_data \<Rightarrow> fat_handle \<Rightarrow> int \<Rightarrow> panic + (int \<times> fat_handle)" where
  "fat_seek_forward d h dist =
     (let fsize = sint (DIR_FileSize (e h)) in
      if dist = 0 then Inr (pos h, h)
      else if \<not> offt_ok (pos h + dist) then Inl Signed_overflow
      else if pos h + dist > fsize then
        Inr (pos h + dist, h\<lparr>pos := pos h + dist, curr_cluster := - 1\<rparr>)
      else
        case fat_seek_forward_loop d fsize dist h 0 of
          Inl p \<Rightarrow> Inl p
        | Inr h' \<Rightarrow> Inr (pos h', h'))"

definition fat_seek_dir :: "fat_fs_device_data \<Rightarrow> fat_handle \<Rightarrow> int \<Rightarrow> int \<times> fat_handle" where
  "fat_seek_dir d fh off =
     (if off < 0 then (- EINVAL, fh)
      else if off > count_dirents d (e fh) then (- EINVAL, fh)
      else (off, fh\<lparr>pos := off\<rparr>))"

definition fat_seek ::
    "fat_fs_device_data \<Rightarrow> fat_handle \<Rightarrow> int \<Rightarrow> int \<Rightarrow> panic + (int \<times> fat_handle)" where
  "fat_seek d fh off whence =
     (if directory (e fh) then
        (if whence \<noteq> SEEK_SET then Inr (- EINVAL, fh) else Inr (fat_seek_dir d fh off))
      else
        let curr_pos = pos fh in
        if whence = SEEK_SET then
          (if off < 0 then Inr (- EINVAL, fh)
           else fat_seek_forward d (fat_rewind fh) off)
        else if whence = SEEK_END then
          (if off \<ge> 0 then fat_seek_forward d fh off
           else
             let off' = sint (DIR_FileSize (e fh)) + off in
             if \<not> offt_ok off' then Inl Signed_overflow
             else if off' < 0 then Inr (- EINVAL, fh)
             else fat_seek_forward d (fat_rewind fh) off')
        else if whence = SEEK_CUR then
          (if off < 0 then
             (let off' = curr_pos + off in
              if \<not> offt_ok off' then Inl Signed_overflow
              else if off' < 0 then Inr (- EINVAL, fh)
              else fat_seek_forward d (fat_rewind fh) off')
           else fat_seek_forward d fh off)
        else Inr (- EINVAL, fh))"

section \<open>Scenarios and observations used in the statements\<close>

text \<open>A kernel right after boot: task 1 runs, nothing sleeps, every IRQ line is masked.\<close>

definition kernel0 :: kernel where
  "kernel0 =
     \<lparr>curr_task = 1,
      tasks = (\<lambda>t. \<lparr>state = (if t = 1 then TASK_STATE_RUNNING else TASK_STATE_RUNNABLE),
                     wobj = \<lparr>wtype = WOBJ_NONE, ptr = None\<rparr>\<rparr>),
      sleeping_tasks_list = [],
      mutexes = (\<lambda>_. kmutex_zero),
      new_mutex_id = 1,
      disable_preemption_count = 0,
      nested_interrupts = [],
      interrupts_enabled = False,
      irq_handlers = replicate 16 None,
      unhandled_irq_count = replicate 256 0,
      spur_irq_count = 0,
      pic1 = \<lparr>imr = 0xFF, isr = 0, irr = 0, read_isr = False\<rparr>,
      pic2 = \<lparr>imr = 0xFF, isr = 0, irr = 0, read_isr = False\<rparr>,
      io_log = []\<rparr>"

text \<open>
  Task 1 holds the plain mutex at address 100; tasks 3, 2 and 4 sleep, in this order,
  tasks 2 and 4 on that mutex and task 3 on another one.
\<close>

definition kernel_waiters :: kernel where
  "kernel_waiters =
     kernel0
      \<lparr>tasks := (tasks kernel0)
         (2 := \<lparr>state = TASK_STATE_SLEEPING, wobj = \<lparr>wtype = WOBJ_KMUTEX, ptr = Some 100\<rparr>\<rparr>,
          3 := \<lparr>state = TASK_STATE_SLEEPING, wobj = \<lparr>wtype = WOBJ_KMUTEX, ptr = Some 200\<rparr>\<rparr>,
          4 := \<lparr>state = TASK_STATE_SLEEPING, wobj = \<lparr>wtype = WOBJ_KMUTEX, ptr = Some 100\<rparr>\<rparr>),
       sleeping_tasks_list := [3, 2, 4],
       mutexes := (mutexes kernel0)
         (100 := \<lparr>mutex_id = 1, flags = 0, lock_count = 0, owner_task = Some 1\<rparr>)\<rparr>"

text \<open>
  \<open>n\<close> calls of \<^verbatim>\<open>kmutex_lock\<close>, then of \<^verbatim>\<open>kmutex_unlock\<close>, by the running task:
  \<open>None\<close> as soon as a call panics or, for the lock, puts the task to sleep.
\<close>

fun kmutex_lock_n :: "nat \<Rightarrow> nat \<Rightarrow> kernel \<Rightarrow> kernel option" where
  "kmutex_lock_n 0 m k = Some k"
| "kmutex_lock_n (Suc n) m k =
     (case kmutex_lock m k of
        Inr (Lock_taken, k') \<Rightarrow> kmutex_lock_n n m k'
      | _ \<Rightarrow> None)"

fun kmutex_unlock_n :: "nat \<Rightarrow> nat \<Rightarrow> kernel \<Rightarrow> kernel option" where
  "kmutex_unlock_n 0 m k = Some k"
| "kmutex_unlock_n (Suc n) m k =
     (case kmutex_unlock m k of
        Inr k' \<Rightarrow> kmutex_unlock_n n m k'
      | Inl _ \<Rightarrow> None)"

text \<open>
  The state in which the mutex at \<open>m\<close> has been locked \<open>n\<close> times by task \<open>c\<close>
  (free when \<open>n = 0\<close>).
\<close>

definition kmutex_held :: "nat \<Rightarrow> u32 \<Rightarrow> u32 \<Rightarrow> nat \<Rightarrow> nat \<Rightarrow> kernel \<Rightarrow> kernel" where
  "kmutex_held m i fl c n k =
     k\<lparr>mutexes := (mutexes k)(m :=
         \<lparr>mutex_id = i, flags = fl, lock_count = of_nat n,
          owner_task = (if n = 0 then None else Some c)\<rparr>)\<rparr>"

text \<open>The in-service registers of the two controllers as one 16-bit value.\<close>

definition pic_isr16 :: "kernel \<Rightarrow> u16" where
  "pic_isr16 k = ucast (isr (pic1 k)) OR push_bit 8 (ucast (isr (pic2 k)))"

text \<open>An IRQ line is unmasked when its bit of the mask register is clear.\<close>

definition irq_unmasked :: "nat \<Rightarrow> kernel \<Rightarrow> bool" where
  "irq_unmasked irq k =
     (if irq < 8 then \<not> bit (imr (pic1 k)) irq else \<not> bit (imr (pic2 k)) (irq - 8))"

text \<open>Sequences of calls of \<^verbatim>\<open>irq_install_handler\<close> and \<^verbatim>\<open>irq_uninstall_handler\<close>.\<close>

datatype irq_call = Install nat "nat option" | Uninstall nat

fun irq_call_line :: "irq_call \<Rightarrow> nat" where
  "irq_call_line (Install i h) = i"
| "irq_call_line (Uninstall i) = i"

fun irq_call_run :: "irq_call \<Rightarrow> kernel \<Rightarrow> panic + kernel" where
  "irq_call_run (Install i h) k = irq_install_handler i h k"
| "irq_call_run (Uninstall i) k = irq_uninstall_handler i k"

fun irq_calls :: "irq_call list \<Rightarrow> kernel \<Rightarrow> panic + kernel" where
  "irq_calls [] k = Inr k"
| "irq_calls (c # cs) k =
     (case irq_call_run c k of Inl p \<Rightarrow> Inl p | Inr k' \<Rightarrow> irq_calls cs k')"

text \<open>
  The last call of a sequence that names the line \<open>i\<close>, and the handler that the
  calls of a sequence register for the line: the one passed by the last call for the
  line when that call is \<^verbatim>\<open>irq_install_handler\<close>, and none when it is
  \<^verbatim>\<open>irq_uninstall_handler\<close> or when no call names the line.
\<close>

fun irq_last_call :: "nat \<Rightarrow> irq_call list \<Rightarrow> irq_call option" where
  "irq_last_call i [] = None"
| "irq_last_call i (c # cs) =
     (case irq_last_call i cs of
        Some x \<Rightarrow> Some x
      | None \<Rightarrow> if irq_call_line c = i then Some c else None)"

fun irq_registered :: "nat \<Rightarrow> irq_call list \<Rightarrow> nat option" where
  "irq_registered i cs =
     (case irq_last_call i cs of
        Some (Install j h) \<Rightarrow> h
      | Some (Uninstall j) \<Rightarrow> None
      | None \<Rightarrow> None)"

definition irq_inv :: "nat set \<Rightarrow> kernel \<Rightarrow> bool" where
  "irq_inv S k \<longleftrightarrow>
     length (irq_handlers k) = 16
   \<and> (\<forall>i<16. irq_unmasked i k \<longleftrightarrow> i \<in> S)
   \<and> (\<forall>i<16. irq_handlers k ! i \<noteq> None \<longrightarrow> i \<in> S)"







text \<open>
  A small image: clusters of 4 bytes, and a file of 10 bytes in the clusters 2, 3 and 5.
\<close>

definition fat_dev0 :: fat_fs_device_data where
  "fat_dev0 =
     \<lparr>cluster_size = 4,
      cluster_data = (\<lambda>c i. of_nat (16 * unat c + i)),
      fat_next = (\<lambda>c. if c = 2 then 3 else if c = 3 then 5 else 0x0FFFFFFF),
      is_eoc = (\<lambda>v. v \<ge> 0x0FFFFFF8),
      is_bad = (\<lambda>v. v = 0x0FFFFFF7),
      count_dirents = (\<lambda>_. 0)\<rparr>"

definition fat_file0 :: fat_entry where
  "fat_file0 = \<lparr>DIR_FileSize = 10, directory = False, volume_id = False, first_cluster = 2\<rparr>"

definition fat_handle0 :: fat_handle where
  "fat_handle0 = \<lparr>e = fat_file0, pos = 0, curr_cluster = 2\<rparr>"

text \<open>
  A file-system state of no content in which every path opens (as handle 1) and the
  driver's \<^verbatim>\<open>fstat\<close> fails with \<^verbatim>\<open>-ENOENT\<close>.
\<close>

definition ENOENT :: int where "ENOENT = 2"

definition stat_env_failing :: "unit vfs_env" where
  "stat_env_failing =
     \<lparr>env_open = (\<lambda>path fl mode w. ((0, Some 1), w)),
      env_close = (\<lambda>h w. w),
      env_shlock = (\<lambda>h w. w),
      env_shunlock = (\<lambda>h w. w),
      env_fstat = (\<lambda>h statbuf w. (- ENOENT, w))\<rparr>"

text \<open>
  Reading a listing. The record of an entry takes \<^verbatim>\<open>sizeof(struct linux_dirent64)\<close>
  bytes, the bytes of the name and one NUL; its header holds the inode number, the
  offset of the next record, the size of the record and the type of the entry.
\<close>

definition rec_size :: "nat \<Rightarrow> vfs_dent64 \<Rightarrow> nat" where
  "rec_size sz v = sz + strlen (name v) + 1"

fun dirent_type :: "vfs_entry_type \<Rightarrow> u8" where
  "dirent_type VFS_NONE = DT_UNKNOWN"
| "dirent_type VFS_FILE = DT_REG"
| "dirent_type VFS_DIR = DT_DIR"
| "dirent_type VFS_SYMLINK = DT_LNK"
| "dirent_type VFS_CHAR_DEV = DT_CHR"
| "dirent_type VFS_BLOCK_DEV = DT_BLK"
| "dirent_type VFS_PIPE = DT_FIFO"

definition record_header :: "nat \<Rightarrow> nat \<Rightarrow> vfs_dent64 \<Rightarrow> linux_dirent64" where
  "record_header sz off v =
     \<lparr>d_ino = ino v, d_off = of_nat (off + rec_size sz v),
      d_reclen = of_nat (rec_size sz v), d_type = dirent_type (type v)\<rparr>"

text \<open>
  \<open>record_at sz mem off v\<close>: the user memory holds the record of the entry \<open>v\<close> at
  the offset \<open>off\<close>, that is its 19 header bytes and, from \<open>off + 19\<close> on, its name
  and the NUL. \<open>records_at sz mem vs\<close>: it holds the records of \<open>vs\<close> one after the
  other from the offset 0 on.
\<close>

definition total_size :: "nat \<Rightarrow> vfs_dent64 list \<Rightarrow> nat" where
  "total_size sz vs = sum_list (map (rec_size sz) vs)"

definition record_at :: "nat \<Rightarrow> u8 list \<Rightarrow> nat \<Rightarrow> vfs_dent64 \<Rightarrow> bool" where
  "record_at sz mem off v \<longleftrightarrow>
     take 19 (drop off mem) = take 19 (dirent_bytes sz (record_header sz off v))
   \<and> take (strlen (name v) + 1) (drop (off + 19) mem) = c_bytes (name v)"

definition records_at :: "nat \<Rightarrow> u8 list \<Rightarrow> vfs_dent64 list \<Rightarrow> bool" where
  "records_at sz mem vs \<longleftrightarrow>
     (\<forall>j\<in>{..<length vs}. record_at sz mem (total_size sz (take j vs)) (vs ! j))"

text \<open>
  \<open>fit_count sz B off vs\<close>: how many leading records of \<open>vs\<close> fit, one after the other
  from the offset \<open>off\<close> on, in a buffer of \<open>B\<close> bytes.
\<close>

fun fit_count :: "nat \<Rightarrow> nat \<Rightarrow> nat \<Rightarrow> vfs_dent64 list \<Rightarrow> nat" where
  "fit_count sz B off [] = 0"
| "fit_count sz B off (v # vs) =
     (if off + rec_size sz v \<le> B then Suc (fit_count sz B (off + rec_size sz v) vs) else 0)"

text \<open>
  The user memory after the two copies of one record, and after the records of a list
  of entries.
\<close>

definition overwrite :: "u8 list \<Rightarrow> nat \<Rightarrow> u8 list \<Rightarrow> u8 list" where
  "overwrite mem off bytes = take off mem @ bytes @ drop (off + length bytes) mem"

definition write_record :: "nat \<Rightarrow> nat \<Rightarrow> vfs_dent64 \<Rightarrow> u8 list \<Rightarrow> u8 list" where
  "write_record sz off v mem =
     overwrite (overwrite mem off (dirent_bytes sz (record_header sz off v)))
       (off + 19) (c_bytes (name v))"

fun emit_records :: "nat \<Rightarrow> nat \<Rightarrow> vfs_dent64 list \<Rightarrow> u8 list \<Rightarrow> u8 list" where
  "emit_records sz off [] mem = mem"
| "emit_records sz off (v # vs) mem =
     emit_records sz (off + rec_size sz v) vs (write_record sz off v mem)"

text \<open>
  Listing a directory by successive calls on the same handle and the same user buffer:
  the results \<open>(rc, pos, memory)\<close> of \<open>n\<close> calls, each one starting at the position
  the call before it left. \<open>one_entry_buffer sz dir B\<close>: a buffer of \<open>B\<close> bytes takes
  every record of \<open>dir\<close>, and no two consecutive ones.
\<close>

fun getdents_calls ::
    "nat \<Rightarrow> vfs_dent64 list \<Rightarrow> u8 list \<Rightarrow> u32 \<Rightarrow> nat \<Rightarrow> int \<Rightarrow> (int \<times> int \<times> u8 list) list" where
  "getdents_calls sz dir mem bsize 0 p = []"
| "getdents_calls sz dir mem bsize (Suc n) p =
     (case vfs_getdents64 sz dir p mem bsize of
        Inl _ \<Rightarrow> []
      | Inr (rc, p', mem') \<Rightarrow> (rc, p', mem') # getdents_calls sz dir mem' bsize n p')"

definition one_entry_buffer :: "nat \<Rightarrow> vfs_dent64 list \<Rightarrow> nat \<Rightarrow> bool" where
  "one_entry_buffer sz dir B \<longleftrightarrow>
     (\<forall>i\<in>{..<length dir}. rec_size sz (dir ! i) \<le> B
        \<and> (Suc i < length dir \<longrightarrow> B < rec_size sz (dir ! i) + rec_size sz (dir ! Suc i)))"

text \<open>A directory with the entries \<^verbatim>\<open>a\<close>, \<^verbatim>\<open>bb\<close> and \<^verbatim>\<open>ccc\<close>.\<close>

definition dir_abc :: "vfs_dent64 list" where
  "dir_abc = [\<lparr>ino = 1, type = VFS_FILE, name = ''a''\<rparr>,
              \<lparr>ino = 2, type = VFS_DIR, name = ''bb''\<rparr>,
              \<lparr>ino = 3, type = VFS_FILE, name = ''ccc''\<rparr>]"

section \<open>Properties of the kernel mutex\<close>

subsection \<open>The scan of the sleeping tasks\<close>

lemma kmutex_wake_one_find:
  assumes "\<forall>t \<in> set xs. state (tasks k t) = TASK_STATE_SLEEPING"
  shows "kmutex_wake_one m xs k =
     Inr (case find (\<lambda>t. ptr (wobj (tasks k t)) = Some m) xs of
            None \<Rightarrow> k
          | Some w \<Rightarrow>
              task_change_state w TASK_STATE_RUNNABLE
                (wait_obj_reset w
                  (k\<lparr>mutexes := (mutexes k)(m :=
                       (mutexes k m)\<lparr>owner_task := Some w,
                         lock_count := (if is_recursive (mutexes k m)
                                        then lock_count (mutexes k m) + 1
                                        else lock_count (mutexes k m))\<rparr>)\<rparr>)))"
  using assms
  by (induction xs) (auto simp: is_recursive_def Let_def)

lemma kmutex_release_find:
  assumes "\<forall>t \<in> set (sleeping_tasks_list k). state (tasks k t) = TASK_STATE_SLEEPING"
  shows "kmutex_release m k =
     Inr (case find (\<lambda>t. ptr (wobj (tasks k t)) = Some m) (sleeping_tasks_list k) of
            None \<Rightarrow>
              k\<lparr>mutexes := (mutexes k)(m := (mutexes k m)\<lparr>owner_task := None\<rparr>),
                disable_preemption_count := disable_preemption_count k - 1\<rparr>
          | Some w \<Rightarrow>
              k\<lparr>tasks := (tasks k)(w :=
                   \<lparr>state = TASK_STATE_RUNNABLE, wobj = \<lparr>wtype = WOBJ_NONE, ptr = None\<rparr>\<rparr>),
                sleeping_tasks_list := removeAll w (sleeping_tasks_list k),
                mutexes := (mutexes k)(m :=
                   (if is_recursive (mutexes k m)
                    then (mutexes k m)\<lparr>owner_task := Some w,
                           lock_count := lock_count (mutexes k m) + 1\<rparr>
                    else (mutexes k m)\<lparr>owner_task := Some w\<rparr>)),
                disable_preemption_count := disable_preemption_count k - 1\<rparr>)"
proof -
  let ?k1 = "k\<lparr>mutexes := (mutexes k)(m := (mutexes k m)\<lparr>owner_task := None\<rparr>)\<rparr>"
  have "\<forall>t \<in> set (sleeping_tasks_list ?k1). state (tasks ?k1 t) = TASK_STATE_SLEEPING"
    using assms by simp
  from kmutex_wake_one_find [OF this, of m]
  show ?thesis
    by (auto simp: kmutex_release_def Let_def enable_preemption_def wait_obj_reset_def
        wait_obj_set_def task_change_state_def is_recursive_def fun_eq_iff
        split: option.splits intro!: kernel.equality kmutex.equality task_info.equality)
qed

lemma kmutex_unlock_find:
  assumes "\<not> in_irq_handler k"
      and "owner_task (mutexes k m) = Some (curr_task k)"
      and "is_recursive (mutexes k m) \<longrightarrow> lock_count (mutexes k m) = 1"
      and "\<forall>t \<in> set (sleeping_tasks_list k). state (tasks k t) = TASK_STATE_SLEEPING"
  shows "kmutex_unlock m k =
     Inr (case find (\<lambda>t. ptr (wobj (tasks k t)) = Some m) (sleeping_tasks_list k) of
            None \<Rightarrow>
              k\<lparr>mutexes := (mutexes k)(m :=
                   (if is_recursive (mutexes k m)
                    then (mutexes k m)\<lparr>lock_count := 0, owner_task := None\<rparr>
                    else (mutexes k m)\<lparr>owner_task := None\<rparr>))\<rparr>
          | Some w \<Rightarrow>
              k\<lparr>tasks := (tasks k)(w :=
                   \<lparr>state = TASK_STATE_RUNNABLE, wobj = \<lparr>wtype = WOBJ_NONE, ptr = None\<rparr>\<rparr>),
                sleeping_tasks_list := removeAll w (sleeping_tasks_list k),
                mutexes := (mutexes k)(m :=
                   (if is_recursive (mutexes k m)
                    then (mutexes k m)\<lparr>lock_count := 1, owner_task := Some w\<rparr>
                    else (mutexes k m)\<lparr>owner_task := Some w\<rparr>))\<rparr>)"
proof (cases "is_recursive (mutexes k m)")
  case False
  let ?k = "disable_preemption k"
  have sl: "\<forall>t \<in> set (sleeping_tasks_list ?k). state (tasks ?k t) = TASK_STATE_SLEEPING"
    using assms(4) by (simp add: disable_preemption_def)
  show ?thesis
    using assms(1,2) False kmutex_release_find [OF sl, of m]
    by (auto simp: kmutex_unlock_def Let_def disable_preemption_def fun_eq_iff
        kmutex_is_curr_task_holding_lock_def get_curr_task_def split: option.splits
        intro!: kernel.equality kmutex.equality task_info.equality)
next
  case True
  let ?k = "disable_preemption k"
  let ?k1 = "?k\<lparr>mutexes := (mutexes ?k)(m := (mutexes ?k m)\<lparr>lock_count := 0\<rparr>)\<rparr>"
  have sl: "\<forall>t \<in> set (sleeping_tasks_list ?k1). state (tasks ?k1 t) = TASK_STATE_SLEEPING"
    using assms(4) by (simp add: disable_preemption_def)
  show ?thesis
    using assms(1,2,3) True kmutex_release_find [OF sl, of m]
    by (auto simp: kmutex_unlock_def Let_def disable_preemption_def is_recursive_def fun_eq_iff
        kmutex_is_curr_task_holding_lock_def get_curr_task_def split: option.splits
        intro!: kernel.equality kmutex.equality task_info.equality)
qed

text \<open>
  Claim C1. When \<^verbatim>\<open>kmutex_unlock\<close> is called by the owner outside an IRQ handler
  (for a recursive mutex with \<open>lock_count = 1\<close>, so that the count returns to zero),
  and the tasks of the sleeping list are in the sleeping state: the call returns, and
  the first task of the sleeping list whose wait object points at the mutex becomes the
  owner: it is runnable, its wait object is cleared, it leaves the sleeping list and,
  for a recursive mutex, \<open>lock_count\<close> is 1. No other task and no other mutex
  changes. When no sleeping task waits on the mutex, the mutex is left free
  (\<open>lock_count\<close> 0 when recursive) and nothing else changes.
\<close>

theorem kmutex_unlock_hands_over:
  assumes "\<not> in_irq_handler k"
      and "owner_task (mutexes k m) = Some (curr_task k)"
      and "is_recursive (mutexes k m) \<longrightarrow> lock_count (mutexes k m) = 1"
      and "\<forall>t \<in> set (sleeping_tasks_list k). state (tasks k t) = TASK_STATE_SLEEPING"
  shows "kmutex_unlock m k =
     Inr (case find (\<lambda>t. ptr (wobj (tasks k t)) = Some m) (sleeping_tasks_list k) of
            None \<Rightarrow>
              k\<lparr>mutexes := (mutexes k)(m :=
                   (if is_recursive (mutexes k m)
                    then (mutexes k m)\<lparr>lock_count := 0, owner_task := None\<rparr>
                    else (mutexes k m)\<lparr>owner_task := None\<rparr>))\<rparr>
          | Some w \<Rightarrow>
              k\<lparr>tasks := (tasks k)(w :=
                   \<lparr>state = TASK_STATE_RUNNABLE, wobj = \<lparr>wtype = WOBJ_NONE, ptr = None\<rparr>\<rparr>),
                sleeping_tasks_list := removeAll w (sleeping_tasks_list k),
                mutexes := (mutexes k)(m :=
                   (if is_recursive (mutexes k m)
                    then (mutexes k m)\<lparr>lock_count := 1, owner_task := Some w\<rparr>
                    else (mutexes k m)\<lparr>owner_task := Some w\<rparr>))\<rparr>)"
  using assms by (rule kmutex_unlock_find)

theorem kmutex_unlock_hands_over_witness:
  "kmutex_unlock 100 kernel_waiters =
     Inr (kernel_waiters
           \<lparr>tasks := (tasks kernel_waiters)(2 :=
              \<lparr>state = TASK_STATE_RUNNABLE, wobj = \<lparr>wtype = WOBJ_NONE, ptr = None\<rparr>\<rparr>),
            sleeping_tasks_list := [3, 4],
            mutexes := (mutexes kernel_waiters)(100 :=
              \<lparr>mutex_id = 1, flags = 0, lock_count = 0, owner_task = Some 2\<rparr>)\<rparr>)"
proof -
  have a: "\<not> in_irq_handler kernel_waiters"
    by (simp add: kernel_waiters_def kernel0_def in_irq_handler_def)
  have b: "owner_task (mutexes kernel_waiters 100) = Some (curr_task kernel_waiters)"
    by (simp add: kernel_waiters_def kernel0_def)
  have c: "is_recursive (mutexes kernel_waiters 100)
             \<longrightarrow> lock_count (mutexes kernel_waiters 100) = 1"
    by (simp add: kernel_waiters_def is_recursive_def)
  have d: "\<forall>t \<in> set (sleeping_tasks_list kernel_waiters).
             state (tasks kernel_waiters t) = TASK_STATE_SLEEPING"
    by (simp add: kernel_waiters_def)
  have e: "find (\<lambda>t. ptr (wobj (tasks kernel_waiters t)) = Some 100)
             (sleeping_tasks_list kernel_waiters) = Some 2"
    by (simp add: kernel_waiters_def)
  have f: "\<not> is_recursive (mutexes kernel_waiters 100)"
    by (simp add: kernel_waiters_def is_recursive_def)
  have g: "removeAll 2 (sleeping_tasks_list kernel_waiters) = [3, 4]"
    by (simp add: kernel_waiters_def)
  have h: "(mutexes kernel_waiters 100)\<lparr>owner_task := Some 2\<rparr> =
             \<lparr>mutex_id = 1, flags = 0, lock_count = 0, owner_task = Some 2\<rparr>"
    by (simp add: kernel_waiters_def)
  show ?thesis
    using kmutex_unlock_hands_over [OF a b c d]
    by (simp add: e f g h)
qed

subsection \<open>Trying to lock\<close>

text \<open>
  Claim C9. Outside an IRQ handler, and on a mutex whose counter is 0 while it is free
  (the invariant of the data model): \<^verbatim>\<open>kmutex_trylock\<close> returns, it returns true
  exactly when the mutex was free (the running task becomes the owner and, when
  recursive, the counter becomes 1) or the mutex is recursive and owned by the running
  task (the counter is incremented, modulo \<open>2 ^ 32\<close>), and in every other case,
  also that of a plain mutex held by the running task, it returns false and the kernel
  state is the one before the call. In no case does a task change its state or the
  sleeping list its content.
\<close>

theorem kmutex_trylock_spec:
  assumes "\<not> in_irq_handler k"
      and "owner_task (mutexes k m) = None \<longrightarrow> lock_count (mutexes k m) = 0"
  shows "kmutex_trylock m k =
     Inr (if owner_task (mutexes k m) = None then
            (True, k\<lparr>mutexes := (mutexes k)(m :=
                       (if is_recursive (mutexes k m)
                        then (mutexes k m)\<lparr>owner_task := Some (curr_task k), lock_count := 1\<rparr>
                        else (mutexes k m)\<lparr>owner_task := Some (curr_task k)\<rparr>))\<rparr>)
          else if is_recursive (mutexes k m) \<and> owner_task (mutexes k m) = Some (curr_task k)
          then (True, k\<lparr>mutexes := (mutexes k)(m := (mutexes k m)
                       \<lparr>lock_count := lock_count (mutexes k m) + 1\<rparr>)\<rparr>)
          else (False, k))"
  using assms
  by (auto simp: kmutex_trylock_def Let_def disable_preemption_def enable_preemption_def
      get_curr_task_def kmutex_is_curr_task_holding_lock_def is_recursive_def)

theorem kmutex_trylock_spec_witness:
  "kmutex_trylock 100 (kmutex_init 100 1 kernel0) =
     Inr (True, (kmutex_init 100 1 kernel0)
            \<lparr>mutexes := (mutexes (kmutex_init 100 1 kernel0))(100 :=
               \<lparr>mutex_id = 1, flags = 1, lock_count = 1, owner_task = Some 1\<rparr>)\<rparr>)"
proof -
  let ?k = "kmutex_init 100 1 kernel0"
  have a: "\<not> in_irq_handler ?k"
    by (simp add: kmutex_init_def kernel0_def in_irq_handler_def)
  have b: "mutexes ?k 100 = \<lparr>mutex_id = 1, flags = 1, lock_count = 0, owner_task = None\<rparr>"
    by (simp add: kmutex_init_def kmutex_zero_def kernel0_def)
  have c: "curr_task ?k = 1"
    by (simp add: kmutex_init_def kernel0_def)
  have d: "owner_task (mutexes ?k 100) = None \<longrightarrow> lock_count (mutexes ?k 100) = 0"
    by (simp add: b)
  show ?thesis
    using kmutex_trylock_spec [OF a d]
    by (simp add: b c is_recursive_def KMUTEX_FL_RECURSIVE_def)
qed

subsection \<open>Counting the locks of a recursive mutex\<close>

lemma u32_of_nat_pos: "0 < n \<Longrightarrow> n < 2 ^ 32 \<Longrightarrow> (0 :: u32) < of_nat n"
  by (simp add: word_less_nat_alt unat_of_nat)

lemma u32_of_nat_unat: "n < 2 ^ 32 \<Longrightarrow> unat (of_nat n :: u32) = n"
  by (simp add: unat_of_nat)

lemma kmutex_lock_held:
  assumes "\<not> in_irq_handler k" and "fl AND KMUTEX_FL_RECURSIVE \<noteq> 0"
      and "n < 2 ^ 32"
  shows "kmutex_lock m (kmutex_held m i fl (curr_task k) n k) =
           Inr (Lock_taken, kmutex_held m i fl (curr_task k) (Suc n) k)"
proof (cases "n = 0")
  case True
  with assms show ?thesis
    by (auto simp: kmutex_lock_def kmutex_held_def Let_def disable_preemption_def
        enable_preemption_def in_irq_handler_def is_recursive_def get_curr_task_def
        intro!: kernel.equality)
next
  case False
  then have "(0 :: u32) < of_nat n" using assms(3) by (simp add: u32_of_nat_pos)
  with False assms show ?thesis
    by (auto simp: kmutex_lock_def kmutex_held_def Let_def disable_preemption_def
        enable_preemption_def in_irq_handler_def is_recursive_def get_curr_task_def
        kmutex_is_curr_task_holding_lock_def
        intro!: kernel.equality)
qed

lemma kmutex_lock_n_held:
  assumes "\<not> in_irq_handler k" and "fl AND KMUTEX_FL_RECURSIVE \<noteq> 0"
      and "n + N \<le> 2 ^ 32"
  shows "kmutex_lock_n N m (kmutex_held m i fl (curr_task k) n k) =
           Some (kmutex_held m i fl (curr_task k) (n + N) k)"
  using assms
proof (induction N arbitrary: n)
  case 0
  then show ?case by simp
next
  case (Suc N)
  have "n < 2 ^ 32" using Suc.prems(3) by simp
  from kmutex_lock_held [OF Suc.prems(1,2) this, of m i]
  show ?case using Suc.IH [of "Suc n"] Suc.prems by simp
qed

lemma kmutex_unlock_held:
  assumes "\<not> in_irq_handler k" and "fl AND KMUTEX_FL_RECURSIVE \<noteq> 0"
      and "Suc n < 2 ^ 32"
      and "\<forall>t \<in> set (sleeping_tasks_list k).
             state (tasks k t) = TASK_STATE_SLEEPING \<and> ptr (wobj (tasks k t)) \<noteq> Some m"
  shows "kmutex_unlock m (kmutex_held m i fl (curr_task k) (Suc n) k) =
           Inr (kmutex_held m i fl (curr_task k) n k)"
proof (cases "n = 0")
  case True
  let ?k = "kmutex_held m i fl (curr_task k) (Suc 0) k"
  have f: "find (\<lambda>t. ptr (wobj (tasks ?k t)) = Some m) (sleeping_tasks_list ?k) = None"
    using assms(4) by (auto simp: kmutex_held_def find_None_iff)
  have "kmutex_unlock m ?k = Inr
     (case find (\<lambda>t. ptr (wobj (tasks ?k t)) = Some m) (sleeping_tasks_list ?k) of
            None \<Rightarrow>
              ?k\<lparr>mutexes := (mutexes ?k)(m :=
                   (if is_recursive (mutexes ?k m)
                    then (mutexes ?k m)\<lparr>lock_count := 0, owner_task := None\<rparr>
                    else (mutexes ?k m)\<lparr>owner_task := None\<rparr>))\<rparr>
          | Some w \<Rightarrow>
              ?k\<lparr>tasks := (tasks ?k)(w :=
                   \<lparr>state = TASK_STATE_RUNNABLE, wobj = \<lparr>wtype = WOBJ_NONE, ptr = None\<rparr>\<rparr>),
                sleeping_tasks_list := removeAll w (sleeping_tasks_list ?k),
                mutexes := (mutexes ?k)(m :=
                   (if is_recursive (mutexes ?k m)
                    then (mutexes ?k m)\<lparr>lock_count := 1, owner_task := Some w\<rparr>
                    else (mutexes ?k m)\<lparr>owner_task := Some w\<rparr>))\<rparr>)"
    using assms(1,2,4)
    by (intro kmutex_unlock_find)
       (auto simp: kmutex_held_def in_irq_handler_def is_recursive_def)
  then show ?thesis using True assms(2)
    by (simp add: f) (auto simp: kmutex_held_def is_recursive_def intro!: kernel.equality)
next
  case False
  then have pos: "(0 :: u32) < of_nat n" using assms(3) by (simp add: u32_of_nat_pos)
  have pos': "(0 :: u32) < 1 + of_nat n"
    using u32_of_nat_pos [of "Suc n"] assms(3) by simp
  show ?thesis using False assms(1,2) pos pos'
    by (auto simp: kmutex_unlock_def kmutex_held_def Let_def disable_preemption_def
        enable_preemption_def in_irq_handler_def is_recursive_def get_curr_task_def
        kmutex_is_curr_task_holding_lock_def
        intro!: kernel.equality)
qed

lemma kmutex_unlock_n_held:
  assumes "\<not> in_irq_handler k" and "fl AND KMUTEX_FL_RECURSIVE \<noteq> 0"
      and "n + j < 2 ^ 32"
      and "\<forall>t \<in> set (sleeping_tasks_list k).
             state (tasks k t) = TASK_STATE_SLEEPING \<and> ptr (wobj (tasks k t)) \<noteq> Some m"
  shows "kmutex_unlock_n j m (kmutex_held m i fl (curr_task k) (n + j) k) =
           Some (kmutex_held m i fl (curr_task k) n k)"
  using assms
proof (induction j arbitrary: n)
  case 0
  then show ?case by simp
next
  case (Suc j)
  have "Suc (n + j) < 2 ^ 32" using Suc.prems(3) by simp
  from kmutex_unlock_held [OF Suc.prems(1,2) this Suc.prems(4), of i]
  show ?case using Suc.IH [of n] Suc.prems by simp
qed

lemma kmutex_init_held:
  "kmutex_init m fl k =
     kmutex_held m (new_mutex_id k) fl c 0 (k\<lparr>new_mutex_id := new_mutex_id k + 1\<rparr>)"
  by (simp add: kmutex_init_def kmutex_held_def kmutex_zero_def)

text \<open>
  Claim C8, as amended. For a mutex initialised with the recursive flag, while no
  sleeping task waits on it, and for \<open>1 \<le> N < 2 ^ 32\<close>: \<open>N\<close> calls of
  \<^verbatim>\<open>kmutex_lock\<close> by one task outside an IRQ handler all return with that task as
  owner and \<open>lock_count = N\<close>; after \<open>j \<le> N\<close> calls of \<^verbatim>\<open>kmutex_unlock\<close> the
  counter is \<open>N - j\<close>, the task still owns the mutex when \<open>j < N\<close>, and the mutex
  is free when \<open>j = N\<close>; the mutex is free exactly when the counter is 0.
\<close>

theorem kmutex_recursive_count:
  assumes "fl AND KMUTEX_FL_RECURSIVE \<noteq> 0"
      and "\<not> in_irq_handler k"
      and "1 \<le> N" and "N < 2 ^ 32" and "j \<le> N"
      and "\<forall>t \<in> set (sleeping_tasks_list k).
             state (tasks k t) = TASK_STATE_SLEEPING \<and> ptr (wobj (tasks k t)) \<noteq> Some m"
  shows "\<exists>k1 k2.
           kmutex_lock_n N m (kmutex_init m fl k) = Some k1
         \<and> owner_task (mutexes k1 m) = Some (curr_task k)
         \<and> unat (lock_count (mutexes k1 m)) = N
         \<and> kmutex_unlock_n j m k1 = Some k2
         \<and> unat (lock_count (mutexes k2 m)) = N - j
         \<and> owner_task (mutexes k2 m) = (if j < N then Some (curr_task k) else None)
         \<and> (owner_task (mutexes k2 m) = None \<longleftrightarrow> lock_count (mutexes k2 m) = 0)"
proof -
  let ?k = "k\<lparr>new_mutex_id := new_mutex_id k + 1\<rparr>"
  let ?st = "\<lambda>n. kmutex_held m (new_mutex_id k) fl (curr_task k) n ?k"
  have irq: "\<not> in_irq_handler ?k" using assms(2) by (simp add: in_irq_handler_def)
  have sl: "\<forall>t \<in> set (sleeping_tasks_list ?k).
              state (tasks ?k t) = TASK_STATE_SLEEPING \<and> ptr (wobj (tasks ?k t)) \<noteq> Some m"
    using assms(6) by simp
  have init: "kmutex_init m fl k = ?st 0" by (rule kmutex_init_held)
  have "kmutex_lock_n N m (?st 0) = Some (?st (0 + N))"
    using kmutex_lock_n_held [OF irq assms(1), of 0 N m "new_mutex_id k"] assms(4) by simp
  then have l: "kmutex_lock_n N m (kmutex_init m fl k) = Some (?st N)"
    by (simp add: init)
  have "kmutex_unlock_n j m (?st ((N - j) + j)) = Some (?st (N - j))"
    using kmutex_unlock_n_held [OF irq assms(1) _ sl, of "N - j" j "new_mutex_id k"] assms(4,5)
    by simp
  then have u: "kmutex_unlock_n j m (?st N) = Some (?st (N - j))"
    using assms(5) by simp
  have nj: "N - j < 2 ^ 32" using assms(4) by simp
  have z: "((of_nat (N - j) :: u32) = 0) = (N - j = 0)"
  proof
    assume "(of_nat (N - j) :: u32) = 0"
    then have "unat (of_nat (N - j) :: u32) = 0" by simp
    then show "N - j = 0" using u32_of_nat_unat [OF nj] by simp
  next
    assume "N - j = 0" then show "(of_nat (N - j) :: u32) = 0" by simp
  qed
  have o1: "owner_task (mutexes (?st N) m) = Some (curr_task k)"
    using assms(3) by (simp add: kmutex_held_def)
  have c1: "unat (lock_count (mutexes (?st N) m)) = N"
    using u32_of_nat_unat [OF assms(4)] by (simp add: kmutex_held_def)
  have c2: "unat (lock_count (mutexes (?st (N - j)) m)) = N - j"
    using u32_of_nat_unat [OF nj] by (simp add: kmutex_held_def)
  have o2: "owner_task (mutexes (?st (N - j)) m) = (if j < N then Some (curr_task k) else None)"
    using assms(5) by (simp add: kmutex_held_def)
  have i2: "owner_task (mutexes (?st (N - j)) m) = None
              \<longleftrightarrow> lock_count (mutexes (?st (N - j)) m) = 0"
    using z by (simp add: kmutex_held_def)
  show ?thesis
    apply (rule exI [of _ "?st N"])
    apply (rule exI [of _ "?st (N - j)"])
    apply (intro conjI)
          apply (rule l)
         apply (rule o1)
        apply (rule c1)
       apply (rule u)
      apply (rule c2)
     apply (rule o2)
    apply (rule i2)
    done
qed

theorem kmutex_recursive_count_witness:
  "\<exists>k1 k2.
      kmutex_lock_n 3 100 (kmutex_init 100 KMUTEX_FL_RECURSIVE kernel0) = Some k1
    \<and> owner_task (mutexes k1 100) = Some (curr_task kernel0)
    \<and> unat (lock_count (mutexes k1 100)) = 3
    \<and> kmutex_unlock_n 2 100 k1 = Some k2
    \<and> unat (lock_count (mutexes k2 100)) = 3 - 2
    \<and> owner_task (mutexes k2 100) = (if (2 :: nat) < 3 then Some (curr_task kernel0) else None)
    \<and> (owner_task (mutexes k2 100) = None \<longleftrightarrow> lock_count (mutexes k2 100) = 0)"
proof -
  have a: "KMUTEX_FL_RECURSIVE AND KMUTEX_FL_RECURSIVE \<noteq> 0"
    by (simp add: KMUTEX_FL_RECURSIVE_def)
  have b: "\<not> in_irq_handler kernel0"
    by (simp add: kernel0_def in_irq_handler_def)
  have c: "\<forall>t \<in> set (sleeping_tasks_list kernel0).
             state (tasks kernel0 t) = TASK_STATE_SLEEPING
           \<and> ptr (wobj (tasks kernel0 t)) \<noteq> Some 100"
    by (simp add: kernel0_def)
  show ?thesis
    by (rule kmutex_recursive_count [OF a b _ _ _ c]) simp_all
qed

text \<open>
  The claim as stated fails when another task waits on the mutex. Task 1 locks the
  recursive mutex once; task 2 then calls \<^verbatim>\<open>kmutex_lock\<close> and goes to sleep on it;
  the matching \<^verbatim>\<open>kmutex_unlock\<close> of task 1 does not leave the mutex free: task 2
  owns it, with \<open>lock_count = 1\<close>.
\<close>

theorem kmutex_recursive_waiter_counterexample:
  "(case kmutex_lock_n 1 100 (kmutex_init 100 KMUTEX_FL_RECURSIVE kernel0) of
      None \<Rightarrow> None
    | Some kA \<Rightarrow>
        (case kmutex_lock 100 (kA\<lparr>curr_task := 2\<rparr>) of
           Inr (Lock_yielded, kB) \<Rightarrow>
             map_option (\<lambda>kC. (owner_task (mutexes kC 100), lock_count (mutexes kC 100)))
               (kmutex_unlock_n 1 100 (kB\<lparr>curr_task := 1\<rparr>))
         | _ \<Rightarrow> None))
   = Some (Some 2, 1)"
  by (simp add: kmutex_init_def kmutex_zero_def kernel0_def kmutex_lock_def kmutex_unlock_def
      kmutex_release_def kmutex_lock_sleep_def Let_def disable_preemption_def
      enable_preemption_def in_irq_handler_def is_recursive_def get_curr_task_def
      kmutex_is_curr_task_holding_lock_def KMUTEX_FL_RECURSIVE_def wait_obj_set_def
      wait_obj_reset_def task_change_state_def)

text \<open>
  The bound on \<open>N\<close> is needed as well: the \<open>2 ^ 32\<close>-th lock wraps the counter
  to 0 while the task still owns the mutex.
\<close>

lemma kmutex_lock_count_wraps:
  "map_option (\<lambda>k. (owner_task (mutexes k 100), lock_count (mutexes k 100)))
     (kmutex_lock_n (2 ^ 32) 100 (kmutex_init 100 KMUTEX_FL_RECURSIVE kernel0))
   = Some (Some 1, 0)"
proof -
  let ?k = "kernel0\<lparr>new_mutex_id := new_mutex_id kernel0 + 1\<rparr>"
  have irq: "\<not> in_irq_handler ?k" by (simp add: in_irq_handler_def kernel0_def)
  have c: "curr_task ?k = 1" by (simp add: kernel0_def)
  have "kmutex_lock_n (2 ^ 32) 100 (kmutex_held 100 (new_mutex_id kernel0) KMUTEX_FL_RECURSIVE (curr_task ?k) 0 ?k)
        = Some (kmutex_held 100 (new_mutex_id kernel0) KMUTEX_FL_RECURSIVE (curr_task ?k) (0 + 2 ^ 32) ?k)"
    by (rule kmutex_lock_n_held [OF irq]) (simp_all add: KMUTEX_FL_RECURSIVE_def)
  then show ?thesis
    by (simp add: kmutex_init_held [of _ _ _ "curr_task ?k"] c kmutex_held_def)
qed

section \<open>Properties of the IRQ dispatcher\<close>

lemma pic_get_isr_eq:
  "pic_get_isr k =
     (pic_isr16 k,
      k\<lparr>pic1 := (pic1 k)\<lparr>read_isr := True\<rparr>, pic2 := (pic2 k)\<lparr>read_isr := True\<rparr>,
        io_log := io_log k @ [Outb PIC1_COMMAND PIC_READ_ISR, Outb PIC2_COMMAND PIC_READ_ISR]\<rparr>)"
  by (simp add: pic_get_isr_def pic_get_irq_reg_def Let_def outb_def inb_def pic_command_def
      pic_read_def pic_isr16_def PIC1_COMMAND_def PIC2_COMMAND_def PIC1_DATA_def PIC2_DATA_def
      PIC_READ_ISR_def PIC_READ_IRR_def)

text \<open>
  Claim C2. On entry of \<^verbatim>\<open>handle_irq\<close> for IRQ 7 or IRQ 15 (vectors 39 and 47) with
  the in-service bit of that line clear: the call returns; \<open>spur_irq_count\<close> is
  incremented; no registered handler is called (the log gets no handler call, and the
  result does not depend on the handlers' code); the mask registers are unchanged; the
  only bytes written to the ports are the two register selections of the in-service
  read and, for IRQ 15 only, one end-of-interrupt byte to the master's command port.
  No end-of-interrupt byte goes to the slave.
\<close>

theorem handle_irq_spurious:
  assumes "int_num r = 39 \<or> int_num r = 47"
      and "\<not> bit (pic_isr16 k) (unat (int_num r - 32))"
  shows "handle_irq track run sched r k =
     Inr (k\<lparr>spur_irq_count := spur_irq_count k + 1,
            pic1 := (pic1 k)\<lparr>read_isr := True\<rparr>,
            pic2 := (pic2 k)\<lparr>read_isr := True\<rparr>,
            io_log := io_log k
              @ [Outb PIC1_COMMAND PIC_READ_ISR, Outb PIC2_COMMAND PIC_READ_ISR]
              @ (if int_num r = 47 then [Outb PIC1_COMMAND PIC_EOI] else [])\<rparr>)"
  using assms
  by (auto simp: handle_irq_def Let_def pic_get_isr_eq pic_send_eoi_def outb_def
      pic_command_def PIC1_COMMAND_def PIC2_COMMAND_def PIC1_DATA_def PIC2_DATA_def
      PIC_READ_ISR_def PIC_READ_IRR_def PIC_EOI_def intro!: kernel.equality)

theorem handle_irq_spurious_witness:
  "handle_irq True (\<lambda>h r k. (1, k)) (\<lambda>r k. k) \<lparr>int_num = 47\<rparr> kernel0 =
     Inr (kernel0\<lparr>spur_irq_count := 1,
            pic1 := (pic1 kernel0)\<lparr>read_isr := True\<rparr>,
            pic2 := (pic2 kernel0)\<lparr>read_isr := True\<rparr>,
            io_log := [Outb PIC1_COMMAND PIC_READ_ISR, Outb PIC2_COMMAND PIC_READ_ISR,
                       Outb PIC1_COMMAND PIC_EOI]\<rparr>)"
proof -
  have a: "int_num \<lparr>int_num = 47\<rparr> = 39 \<or> int_num \<lparr>int_num = 47\<rparr> = 47"
    by simp
  have b: "\<not> bit (pic_isr16 kernel0) (unat (int_num \<lparr>int_num = 47\<rparr> - 32))"
    by (simp add: pic_isr16_def kernel0_def)
  have c: "spur_irq_count kernel0 = 0" "io_log kernel0 = []"
    by (simp_all add: kernel0_def)
  show ?thesis
    using handle_irq_spurious [OF a b, of True "\<lambda>h r k. (1, k)" "\<lambda>r k. k"]
    by (simp add: c)
qed

subsection \<open>Masks and handlers\<close>

lemma irq_install_handler_effect:
  assumes "i < 16" and "length (irq_handlers k) = 16"
  shows "\<exists>k'. irq_install_handler i h k = Inr k'
           \<and> irq_handlers k' = (irq_handlers k)[i := h]
           \<and> (\<forall>j<16. irq_unmasked j k' \<longleftrightarrow> irq_unmasked j k \<or> j = i)"
proof (cases "i < 8")
  case True
  then show ?thesis using assms
    by (auto simp: irq_install_handler_def irq_clear_mask_def Let_def outb_def inb_def
        irq_unmasked_def PIC1_COMMAND_def PIC2_COMMAND_def PIC1_DATA_def PIC2_DATA_def
        bit_simps)
next
  case False
  then have "nat (int i - 8) = i - 8" by simp
  then show ?thesis using False assms
    by (auto simp: irq_install_handler_def irq_clear_mask_def Let_def outb_def inb_def
        irq_unmasked_def PIC1_COMMAND_def PIC2_COMMAND_def PIC1_DATA_def PIC2_DATA_def
        bit_simps)
qed

lemma irq_uninstall_handler_effect:
  assumes "i < 16" and "length (irq_handlers k) = 16"
  shows "irq_uninstall_handler i k = Inr (k\<lparr>irq_handlers := (irq_handlers k)[i := None]\<rparr>)"
  using assms by (simp add: irq_uninstall_handler_def)

lemma irq_unmasked_handlers_upd [simp]:
  "irq_unmasked j (k\<lparr>irq_handlers := hs\<rparr>) = irq_unmasked j k"
  by (simp add: irq_unmasked_def)

lemma bit_int_255: "bit (255 :: int) i \<longleftrightarrow> i < 8"
proof -
  have "(255 :: int) = mask 8" by (simp add: mask_eq_exp_minus_1)
  then show ?thesis by (simp only: bit_mask_iff) simp
qed

lemma irq_call_run_inv:
  assumes "irq_inv S k" and "irq_call_line c < 16"
  shows "\<exists>k'. irq_call_run c k = Inr k'
           \<and> irq_inv (S \<union> {i. \<exists>h. c = Install i h}) k'"
proof (cases c)
  case (Install i h)
  with assms have i: "i < 16" and len: "length (irq_handlers k) = 16"
    by (simp_all add: irq_inv_def)
  from irq_install_handler_effect [OF i len, of h] obtain k' where
    k': "irq_install_handler i h k = Inr k'"
        "irq_handlers k' = (irq_handlers k)[i := h]"
        "\<forall>j<16. irq_unmasked j k' \<longleftrightarrow> irq_unmasked j k \<or> j = i"
    by blast
  have "irq_inv (S \<union> {i}) k'"
    using assms(1) k'(2,3) len
    by (auto simp: irq_inv_def nth_list_update)
  then show ?thesis using k'(1) Install by simp
next
  case (Uninstall i)
  with assms have i: "i < 16" and len: "length (irq_handlers k) = 16"
    by (simp_all add: irq_inv_def)
  have "irq_inv S (k\<lparr>irq_handlers := (irq_handlers k)[i := None]\<rparr>)"
    using assms(1) i by (auto simp: irq_inv_def nth_list_update split: if_splits)
  then show ?thesis
    using irq_uninstall_handler_effect [OF i len] Uninstall by simp
qed

lemma irq_calls_inv:
  assumes "irq_inv S k" and "\<forall>c \<in> set cs. irq_call_line c < 16"
  shows "\<exists>k'. irq_calls cs k = Inr k'
           \<and> irq_inv (S \<union> {i. \<exists>h. Install i h \<in> set cs}) k'"
  using assms
proof (induction cs arbitrary: S k)
  case Nil
  then show ?case by simp
next
  case (Cons c cs)
  from irq_call_run_inv [OF Cons.prems(1), of c] Cons.prems(2) obtain k1 where
    k1: "irq_call_run c k = Inr k1" "irq_inv (S \<union> {i. \<exists>h. c = Install i h}) k1"
    by auto
  from Cons.IH [OF k1(2)] Cons.prems(2) obtain k' where
    k': "irq_calls cs k1 = Inr k'"
        "irq_inv (S \<union> {i. \<exists>h. c = Install i h} \<union> {i. \<exists>h. Install i h \<in> set cs}) k'"
    by auto
  have "S \<union> {i. \<exists>h. c = Install i h} \<union> {i. \<exists>h. Install i h \<in> set cs}
        = S \<union> {i. \<exists>h. Install i h \<in> set (c # cs)}"
    by auto
  with k' k1(1) show ?case by simp
qed

lemma irq_calls_slots:
  assumes "length (irq_handlers k) = 16" and "\<forall>c \<in> set cs. irq_call_line c < 16"
      and "irq_calls cs k = Inr k'" and "i < 16"
  shows "length (irq_handlers k') = 16
       \<and> irq_handlers k' ! i =
           (case irq_last_call i cs of
              Some (Install j h) \<Rightarrow> h
            | Some (Uninstall j) \<Rightarrow> None
            | None \<Rightarrow> irq_handlers k ! i)"
  using assms
proof (induction cs arbitrary: k)
  case Nil
  then show ?case by simp
next
  case (Cons c cs)
  have line: "irq_call_line c < 16" using Cons.prems(2) by simp
  obtain k1 where k1: "irq_call_run c k = Inr k1" and run: "irq_calls cs k1 = Inr k'"
    using Cons.prems(3) by (cases "irq_call_run c k") simp_all
  have upd: "irq_handlers k1 =
               (irq_handlers k)[irq_call_line c :=
                  (case c of Install j h \<Rightarrow> h | Uninstall j \<Rightarrow> None)]"
  proof (cases c)
    case (Install j h)
    then have j: "j < 16" using line by simp
    show ?thesis
      using irq_install_handler_effect [OF j Cons.prems(1), of h] k1 Install by auto
  next
    case (Uninstall j)
    then have j: "j < 16" using line by simp
    show ?thesis
      using irq_uninstall_handler_effect [OF j Cons.prems(1)] k1 Uninstall by auto
  qed
  then have len1: "length (irq_handlers k1) = 16" using Cons.prems(1) by simp
  have ih: "length (irq_handlers k') = 16
       \<and> irq_handlers k' ! i =
           (case irq_last_call i cs of
              Some (Install j h) \<Rightarrow> h
            | Some (Uninstall j) \<Rightarrow> None
            | None \<Rightarrow> irq_handlers k1 ! i)"
    using Cons.prems(2,4) by (intro Cons.IH [OF len1 _ run]) simp_all
  have first: "irq_handlers k1 ! i =
                 (if irq_call_line c = i
                  then (case c of Install j h \<Rightarrow> h | Uninstall j \<Rightarrow> None)
                  else irq_handlers k ! i)"
    using Cons.prems(1) line by (simp add: upd nth_list_update)
  show ?case
    using ih first by (cases "irq_last_call i cs"; cases c) (auto split: irq_call.splits)
qed

text \<open>
  Claim C4, as amended. After every sequence of calls of \<^verbatim>\<open>irq_install_handler\<close>
  and \<^verbatim>\<open>irq_uninstall_handler\<close> for lines below 16, starting from a state with every
  line masked and no handler: every call returns; a line is unmasked exactly when
  \<^verbatim>\<open>irq_install_handler\<close> has been called for it; the slot of a line holds the
  handler passed by the last call for the line when that call was
  \<^verbatim>\<open>irq_install_handler\<close>, and \<^verbatim>\<open>NULL\<close> when it was \<^verbatim>\<open>irq_uninstall_handler\<close> or
  when no call named the line. So every line with a registered handler is unmasked, and
  an unmasked line has a handler unless the last call for it was
  \<^verbatim>\<open>irq_uninstall_handler\<close>, which clears the slot and leaves the mask as it is, or
  the installation of \<^verbatim>\<open>NULL\<close>.
\<close>

theorem irq_mask_follows_install:
  assumes "length (irq_handlers k) = 16"
      and "\<forall>i<16. irq_handlers k ! i = None"
      and "imr (pic1 k) = 0xFF" and "imr (pic2 k) = 0xFF"
      and "\<forall>c \<in> set cs. irq_call_line c < 16"
  shows "\<exists>k'. irq_calls cs k = Inr k'
           \<and> (\<forall>i<16. irq_unmasked i k' \<longleftrightarrow> (\<exists>h. Install i h \<in> set cs))
           \<and> (\<forall>i<16. irq_handlers k' ! i = irq_registered i cs)
           \<and> (\<forall>i<16. irq_handlers k' ! i \<noteq> None \<longrightarrow> irq_unmasked i k')
           \<and> (\<forall>i<16. irq_unmasked i k' \<and> irq_handlers k' ! i = None \<longrightarrow>
                  irq_last_call i cs = Some (Uninstall i)
                \<or> irq_last_call i cs = Some (Install i None))"
proof -
  have "\<forall>i<16. \<not> irq_unmasked i k"
    using assms(3,4) by (auto simp: irq_unmasked_def bit_int_255)
  then have "irq_inv {} k"
    using assms(1,2) by (simp add: irq_inv_def)
  from irq_calls_inv [OF this assms(5)] obtain k' where
    run: "irq_calls cs k = Inr k'"
    and inv: "irq_inv ({} \<union> {i. \<exists>h. Install i h \<in> set cs}) k'"
    by blast
  have mask: "\<forall>i<16. irq_unmasked i k' \<longleftrightarrow> (\<exists>h. Install i h \<in> set cs)"
    using inv by (auto simp: irq_inv_def)
  have reg: "\<forall>i<16. irq_handlers k' ! i \<noteq> None \<longrightarrow> irq_unmasked i k'"
    using inv by (auto simp: irq_inv_def)
  have slot: "irq_handlers k' ! i = irq_registered i cs" if "i < 16" for i
    using irq_calls_slots [OF assms(1,5) run that] assms(2) that
    by (auto split: option.splits irq_call.splits)
  have last_line: "irq_last_call i cs = Some x \<Longrightarrow> irq_call_line x = i \<and> x \<in> set cs"
    for i x
    by (induction cs) (auto split: option.splits if_splits)
  have last_none: "irq_last_call i cs = None \<Longrightarrow> \<forall>c \<in> set cs. irq_call_line c \<noteq> i"
    for i
    by (induction cs) (auto split: option.splits if_splits)
  have bare: "irq_last_call i cs = Some (Uninstall i)
                \<or> irq_last_call i cs = Some (Install i None)"
    if i: "i < 16" and u: "irq_unmasked i k'" and n: "irq_handlers k' ! i = None" for i
  proof (cases "irq_last_call i cs")
    case None
    then have "\<forall>c \<in> set cs. irq_call_line c \<noteq> i" by (rule last_none)
    moreover obtain h where "Install i h \<in> set cs" using mask i u by blast
    ultimately show ?thesis by force
  next
    case (Some x)
    then have l: "irq_call_line x = i" using last_line by blast
    show ?thesis
    proof (cases x)
      case (Install j h)
      then have "j = i" using l by simp
      moreover have "h = None" using slot [OF i] n Some Install by simp
      ultimately show ?thesis using Some Install by simp
    next
      case (Uninstall j)
      then have "j = i" using l by simp
      then show ?thesis using Some Uninstall by simp
    qed
  qed
  show ?thesis
    using run mask reg slot bare by (intro exI [of _ k']) blast
qed

theorem irq_mask_follows_install_witness:
  "\<exists>k'. irq_calls [Install 3 (Some 7), Uninstall 3, Install 9 (Some 5)] kernel0 = Inr k'
        \<and> irq_unmasked 3 k' \<and> irq_unmasked 9 k' \<and> \<not> irq_unmasked 4 k'
        \<and> irq_handlers k' ! 3 = None \<and> irq_handlers k' ! 9 = Some 5
        \<and> irq_handlers k' ! 4 = None"
proof -
  let ?cs = "[Install 3 (Some 7), Uninstall 3, Install 9 (Some 5)]"
  have a: "length (irq_handlers kernel0) = 16"
    by (simp add: kernel0_def)
  have b: "\<forall>i<16. irq_handlers kernel0 ! i = None"
    by (simp add: kernel0_def)
  have c: "imr (pic1 kernel0) = 0xFF" "imr (pic2 kernel0) = 0xFF"
    by (simp_all add: kernel0_def)
  have d: "\<forall>c \<in> set ?cs. irq_call_line c < 16"
    by simp
  from irq_mask_follows_install [OF a b c d] obtain k' where
    k': "irq_calls ?cs kernel0 = Inr k'"
        "\<forall>i<16. irq_unmasked i k' \<longleftrightarrow> (\<exists>h. Install i h \<in> set ?cs)"
        "\<forall>i<16. irq_handlers k' ! i = irq_registered i ?cs"
    by blast
  have "irq_unmasked 3 k'" "irq_unmasked 9 k'" "\<not> irq_unmasked 4 k'"
    using k'(2) by simp_all
  moreover have "irq_handlers k' ! 3 = None" "irq_handlers k' ! 9 = Some 5"
    "irq_handlers k' ! 4 = None"
    using k'(3) by simp_all
  ultimately show ?thesis using k'(1) by blast
qed

text \<open>
  The claim as stated fails: after a handler is installed on line 3 and uninstalled
  again, the line is unmasked and has no handler.
\<close>

theorem irq_uninstall_counterexample:
  "(case irq_calls [Install 3 (Some 7), Uninstall 3] kernel0 of
      Inl p \<Rightarrow> False
    | Inr k' \<Rightarrow> irq_unmasked 3 k' \<and> irq_handlers k' ! 3 = None)"
  by (simp add: kernel0_def irq_install_handler_def irq_uninstall_handler_def
      irq_clear_mask_def Let_def outb_def inb_def irq_unmasked_def PIC1_COMMAND_def
      PIC2_COMMAND_def PIC1_DATA_def PIC2_DATA_def bit_simps)

text \<open>
  The installation of \<^verbatim>\<open>NULL\<close> is the other exception: \<^verbatim>\<open>irq_install_handler\<close>
  does not look at the handler, so the line is unmasked and has no handler.
\<close>

lemma irq_install_null_unmasked:
  "(case irq_calls [Install 3 None] kernel0 of
      Inl p \<Rightarrow> False
    | Inr k' \<Rightarrow> irq_unmasked 3 k' \<and> irq_handlers k' ! 3 = None)"
  by (simp add: kernel0_def irq_install_handler_def
      irq_clear_mask_def Let_def outb_def inb_def irq_unmasked_def PIC1_COMMAND_def
      PIC2_COMMAND_def PIC1_DATA_def PIC2_DATA_def bit_simps)

section \<open>Properties of the FAT driver\<close>

subsection \<open>Arithmetic of clusters and splicing of buffers\<close>


















subsection \<open>Seeking\<close>

text \<open>
  Claim C5 (fails on the code). On a file of 10 bytes with the cursor at 0,
  \<^verbatim>\<open>fat_seek(h, 0, SEEK_END)\<close> returns 0 and leaves the cursor at 0, where the file
  size plus the offset is 10: for \<^verbatim>\<open>SEEK_END\<close> with an offset that is not negative
  the code seeks forward by the offset from the current position.
\<close>

theorem fat_seek_end_ignores_size:
  "fat_seek fat_dev0 fat_handle0 0 SEEK_END = Inr (0, fat_handle0)
   \<and> uint (DIR_FileSize (e fat_handle0)) + 0 = 10"
  by (simp add: fat_seek_def fat_seek_forward_def fat_handle0_def fat_file0_def
      SEEK_END_def SEEK_SET_def SEEK_CUR_def Let_def)

section \<open>Properties of stat\<close>

text \<open>
  Whenever \<^verbatim>\<open>vfs_open\<close> succeeds, \<^verbatim>\<open>vfs_stat64\<close> returns 0, whatever the
  \<^verbatim>\<open>fstat\<close> step returned.
\<close>

lemma vfs_stat64_returns_0:
  assumes "env_open env path O_RDONLY 0 w = ((rc, Some h), w1)" and "0 \<le> rc"
  shows "\<exists>w'. vfs_stat64 env path statbuf w = Inr (0, w')"
  using assms by (simp add: vfs_stat64_def Let_def split: prod.splits)

text \<open>
  Claim C3 (fails on the code). The path opens and the \<^verbatim>\<open>fstat\<close> step returns
  \<^verbatim>\<open>-ENOENT\<close>, but \<^verbatim>\<open>vfs_stat64\<close> returns 0: the error of the \<^verbatim>\<open>fstat\<close> step
  is stored in \<^verbatim>\<open>rc\<close> and never returned.
\<close>

theorem vfs_stat64_drops_fstat_error:
  "vfs_fstat64 stat_env_failing 1 0 () = (- 2, ())
   \<and> vfs_stat64 stat_env_failing ''/a'' 0 () = Inr (0, ())"
  by (simp add: vfs_stat64_def vfs_fstat64_def stat_env_failing_def ENOENT_def Let_def)

section \<open>Properties of getdents64\<close>

subsection \<open>Words and bytes\<close>

lemma length_le_bytes [simp]: "length (le_bytes n w) = n"
  by (simp add: le_bytes_def)

lemma length_dirent_bytes: "19 \<le> sz \<Longrightarrow> length (dirent_bytes sz en) = sz"
  by (simp add: dirent_bytes_def)

lemma length_c_bytes: "length (c_bytes s) = strlen s + 1"
  by (simp add: c_bytes_def strlen_def)

lemma u16_of_nat: "n < 2 ^ 16 \<Longrightarrow> unat (of_nat n :: u16) = n"
  by (simp add: unat_of_nat)

lemma u32_of_nat: "n < 2 ^ 32 \<Longrightarrow> unat (of_nat n :: u32) = n"
  by (simp add: unat_of_nat)

lemma ucast_u16_u32_of_nat:
  "n < 2 ^ 16 \<Longrightarrow> (ucast (of_nat n :: u16) :: u32) = of_nat n"
  by (simp add: unsigned_of_nat take_bit_nat_eq_self)

lemma ucast_u32_u64_of_nat:
  "n < 2 ^ 32 \<Longrightarrow> (ucast (of_nat n :: u32) :: u64) = of_nat n"
  by (simp add: unsigned_of_nat take_bit_nat_eq_self)

lemma sint_u32_of_nat:
  "n < 2 ^ 31 \<Longrightarrow> sint (of_nat n :: u32) = int n"
  by (simp add: signed_of_nat signed_take_bit_int_eq_self)

lemma u32_less_of_nat:
  "a < 2 ^ 32 \<Longrightarrow> b < 2 ^ 32 \<Longrightarrow> ((of_nat a :: u32) < of_nat b) = (a < b)"
  by (simp add: word_less_nat_alt unat_of_nat)

lemma u32_of_nat_eq_0:
  assumes "a < 2 ^ 32"
  shows "((of_nat a :: u32) = 0) = (a = 0)"
proof
  assume "(of_nat a :: u32) = 0"
  then have "unat (of_nat a :: u32) = 0" by simp
  then show "a = 0" using u32_of_nat [OF assms] by simp
next
  assume "a = 0" then show "(of_nat a :: u32) = 0" by simp
qed

subsection \<open>One call of the callback\<close>

lemma dirent_type_Inr:
  "t \<noteq> VFS_NONE \<Longrightarrow> vfs_type_to_linux_dirent_type t = Inr (dirent_type t)"
  by (cases t) simp_all

lemma take_c_bytes: "take (strlen s + 1) (c_bytes s) = c_bytes s"
  by (simp add: length_c_bytes)

lemma cb_unfold:
  assumes idx: "\<not> curr_index c < h_pos c"
      and off: "offset c = of_nat ofs" and bs: "buf_size c = of_nat B"
      and B: "B < 2 ^ 31" and oB: "ofs \<le> B"
      and rs: "rs = rec_size sz v" and small: "rs < 2 ^ 16"
      and ty: "type v \<noteq> VFS_NONE"
  shows "vfs_getdents_cb sz v c =
     (if B < ofs + rs then (if ofs = 0 then Inr (- EINVAL, c) else Inr (int ofs, c))
      else
        (let c1 = c\<lparr>ent := record_header sz ofs v\<rparr>;
             (rc1, mem1) = copy_to_user (user_mem c) ofs (dirent_bytes sz (record_header sz ofs v))
         in
         if rc1 < 0 then Inr (- EFAULT, c1\<lparr>user_mem := mem1\<rparr>)
         else
           (let (rc2, mem2) = copy_to_user mem1 (ofs + 19) (c_bytes (name v))
            in
            if rc2 < 0 then Inr (- EFAULT, c1\<lparr>user_mem := mem2\<rparr>)
            else Inr (0, c1\<lparr>user_mem := mem2,
                              offset := of_nat (ofs + rs),
                              curr_index := curr_index c + 1,
                              h_pos := h_pos c + 1\<rparr>))))"
proof -
  have L: "strlen (name v) < 2 ^ 16" using small by (simp add: rs rec_size_def)
  have fl: "unat (of_nat (strlen (name v)) :: u16) = strlen (name v)"
    using L by (rule u16_of_nat)
  have es: "(of_nat sz + of_nat (strlen (name v)) + 1 :: u16) = of_nat rs"
    by (simp add: rs rec_size_def)
  have uc: "(ucast (of_nat rs :: u16) :: u32) = of_nat rs"
    using small by (rule ucast_u16_u32_of_nat)
  have b32: "ofs < 2 ^ 32" "B < 2 ^ 32" "ofs + rs < 2 ^ 32" "ofs < 2 ^ 31"
    using B oB small by simp_all
  have cmp: "((of_nat B :: u32) < of_nat ofs + of_nat rs) = (B < ofs + rs)"
    using u32_less_of_nat [of B "ofs + rs"] b32 by simp
  have z: "((of_nat ofs :: u32) = 0) = (ofs = 0)"
    using b32 by (simp add: u32_of_nat_eq_0)
  have si: "sint (of_nat ofs :: u32) = int ofs"
    using b32 by (simp add: sint_u32_of_nat)
  have un: "unat (of_nat ofs :: u32) = ofs"
    using b32 by (simp add: u32_of_nat)
  have d64: "(ucast (of_nat ofs + of_nat rs :: u32) :: u64) = of_nat ofs + of_nat rs"
    using ucast_u32_u64_of_nat [of "ofs + rs"] b32 by simp
  have hdr: "\<lparr>d_ino = ino v, d_off = of_nat ofs + of_nat rs, d_reclen = of_nat rs,
              d_type = dirent_type (type v)\<rparr> = record_header sz ofs v"
    by (simp add: record_header_def rs)
  have tk: "take (Suc (strlen (name v))) (c_bytes (name v)) = c_bytes (name v)"
    using take_c_bytes [of "name v"] by simp
  show ?thesis
  proof (cases "B < ofs + rs")
    case True
    then show ?thesis
      unfolding vfs_getdents_cb_def Let_def
      by (simp add: idx off bs es uc cmp z si)
  next
    case False
    obtain rc1 mem1 where c1:
      "copy_to_user (user_mem c) ofs (dirent_bytes sz (record_header sz ofs v)) = (rc1, mem1)"
      by (cases "copy_to_user (user_mem c) ofs (dirent_bytes sz (record_header sz ofs v))")
    obtain rc2 mem2 where c2:
      "copy_to_user mem1 (ofs + 19) (c_bytes (name v)) = (rc2, mem2)"
      by (cases "copy_to_user mem1 (ofs + 19) (c_bytes (name v))")
    show ?thesis
      unfolding vfs_getdents_cb_def Let_def
      using False
      by (simp add: idx off bs es uc cmp fl dirent_type_Inr [OF ty]
          d64 hdr un d_name_offset_def tk c1 c2)
  qed
qed

subsection \<open>The records in the user memory\<close>

lemma length_overwrite:
  "off + length bs \<le> length mem \<Longrightarrow> length (overwrite mem off bs) = length mem"
  by (simp add: overwrite_def)

lemma take_overwrite:
  assumes "n \<le> off" and "off \<le> length mem"
  shows "take n (overwrite mem off bs) = take n mem"
proof -
  have "length (take off mem) = off" using assms(2) by simp
  then have "take n (take off mem @ bs @ drop (off + length bs) mem) = take n (take off mem)"
    using assms(1) by simp
  then show ?thesis using assms(1) by (simp add: overwrite_def min_absorb1)
qed

lemma drop_overwrite:
  assumes "off + length bs \<le> n" and "off + length bs \<le> length mem"
  shows "drop n (overwrite mem off bs) = drop n mem"
proof -
  have l: "length (take off mem @ bs) = off + length bs" using assms(2) by simp
  have "overwrite mem off bs = (take off mem @ bs) @ drop (off + length bs) mem"
    by (simp add: overwrite_def)
  then have "drop n (overwrite mem off bs)
             = drop (n - (off + length bs)) (drop (off + length bs) mem)"
    using l assms(1) by (simp only: drop_append) simp
  also have "\<dots> = drop n mem" using assms(1) by simp
  finally show ?thesis .
qed

lemma mid_overwrite:
  assumes "off + length bs \<le> length mem"
  shows "take (length bs) (drop off (overwrite mem off bs)) = bs"
proof -
  have l: "length (take off mem) = off" using assms by simp
  have "drop off (take off mem @ bs @ drop (off + length bs) mem)
        = bs @ drop (off + length bs) mem"
    using l by (metis append_eq_conv_conj)
  then show ?thesis by (simp add: overwrite_def)
qed

lemma rec_size_ge: "19 \<le> sz \<Longrightarrow> strlen (name v) + 20 \<le> rec_size sz v"
  by (simp add: rec_size_def)

lemma rec_size_ge_sz: "sz \<le> rec_size sz v"
  by (simp add: rec_size_def)

lemma length_write_record:
  assumes sz: "19 \<le> sz" and fit: "off + rec_size sz v \<le> length mem"
  shows "length (write_record sz off v mem) = length mem"
proof -
  let ?hdr = "dirent_bytes sz (record_header sz off v)"
  have h: "off + length ?hdr \<le> length mem"
    using fit rec_size_ge_sz [of sz v] by (simp add: length_dirent_bytes [OF sz])
  have l1: "length (overwrite mem off ?hdr) = length mem" using h by (rule length_overwrite)
  have n: "off + 19 + length (c_bytes (name v)) \<le> length (overwrite mem off ?hdr)"
    using fit rec_size_ge [OF sz, of v] by (simp add: l1 length_c_bytes)
  show ?thesis unfolding write_record_def using length_overwrite [OF n] l1 by simp
qed

lemma take_write_record:
  assumes sz: "19 \<le> sz" and fit: "off + rec_size sz v \<le> length mem" and n: "n \<le> off"
  shows "take n (write_record sz off v mem) = take n mem"
proof -
  let ?hdr = "dirent_bytes sz (record_header sz off v)"
  have h: "off + length ?hdr \<le> length mem"
    using fit rec_size_ge_sz [of sz v] by (simp add: length_dirent_bytes [OF sz])
  have l1: "length (overwrite mem off ?hdr) = length mem" using h by (rule length_overwrite)
  have a: "off + 19 \<le> length (overwrite mem off ?hdr)"
    using fit rec_size_ge [OF sz, of v] by (simp add: l1)
  have "take n (write_record sz off v mem) = take n (overwrite mem off ?hdr)"
    unfolding write_record_def using n a by (intro take_overwrite) simp_all
  also have "\<dots> = take n mem" using n h by (intro take_overwrite) simp_all
  finally show ?thesis .
qed

lemma drop_write_record:
  assumes sz: "19 \<le> sz" and fit: "off + rec_size sz v \<le> length mem"
      and n: "off + rec_size sz v \<le> n"
  shows "drop n (write_record sz off v mem) = drop n mem"
proof -
  let ?hdr = "dirent_bytes sz (record_header sz off v)"
  have lh: "length ?hdr = sz" by (rule length_dirent_bytes [OF sz])
  have h: "off + length ?hdr \<le> length mem"
    using fit rec_size_ge_sz [of sz v] by (simp add: lh)
  have l1: "length (overwrite mem off ?hdr) = length mem" using h by (rule length_overwrite)
  have a: "off + 19 + length (c_bytes (name v)) \<le> length (overwrite mem off ?hdr)"
    using fit rec_size_ge [OF sz, of v] by (simp add: l1 length_c_bytes)
  have b: "off + 19 + length (c_bytes (name v)) \<le> n"
    using n rec_size_ge [OF sz, of v] by (simp add: length_c_bytes)
  have "drop n (write_record sz off v mem) = drop n (overwrite mem off ?hdr)"
    unfolding write_record_def using b a by (rule drop_overwrite)
  also have "\<dots> = drop n mem"
    using n rec_size_ge_sz [of sz v] h by (intro drop_overwrite) (simp_all add: lh)
  finally show ?thesis .
qed

lemma take_drop_take:
  "a + k \<le> n \<Longrightarrow> take k (drop a (take n xs)) = take k (drop a xs)"
  by (simp add: drop_take)

lemma record_at_write_record:
  assumes sz: "19 \<le> sz" and fit: "off + rec_size sz v \<le> length mem"
  shows "record_at sz (write_record sz off v mem) off v"
proof -
  let ?hdr = "dirent_bytes sz (record_header sz off v)"
  let ?m1 = "overwrite mem off ?hdr"
  let ?nm = "c_bytes (name v)"
  have lh: "length ?hdr = sz" by (rule length_dirent_bytes [OF sz])
  have h: "off + length ?hdr \<le> length mem"
    using fit rec_size_ge_sz [of sz v] by (simp add: lh)
  have l1: "length ?m1 = length mem" using h by (rule length_overwrite)
  have a: "off + 19 + length ?nm \<le> length ?m1"
    using fit rec_size_ge [OF sz, of v] by (simp add: l1 length_c_bytes)
  have a19: "off + 19 \<le> length ?m1" using a by simp
  have t: "take (off + 19) (write_record sz off v mem) = take (off + 19) ?m1"
    unfolding write_record_def using a19 by (intro take_overwrite) simp_all
  have "take 19 (drop off (write_record sz off v mem))
        = take 19 (drop off (take (off + 19) (write_record sz off v mem)))"
    by (rule take_drop_take [symmetric]) simp
  also have "\<dots> = take 19 (drop off ?m1)" unfolding t by (rule take_drop_take) simp
  also have "\<dots> = take 19 (take (length ?hdr) (drop off ?m1))"
    using sz by (simp add: lh min_absorb2)
  also have "\<dots> = take 19 ?hdr" using mid_overwrite [OF h] by simp
  finally have hd: "take 19 (drop off (write_record sz off v mem)) = take 19 ?hdr" .
  have "take (length ?nm) (drop (off + 19) (write_record sz off v mem)) = ?nm"
    unfolding write_record_def by (rule mid_overwrite [OF a])
  then have nm: "take (strlen (name v) + 1) (drop (off + 19) (write_record sz off v mem)) = ?nm"
    by (simp add: length_c_bytes)
  show ?thesis unfolding record_at_def using hd nm by simp
qed

lemma record_at_cong:
  assumes eq: "take n mem = take n mem'" and n: "off + strlen (name v) + 20 \<le> n"
  shows "record_at sz mem off v = record_at sz mem' off v"
proof -
  have a: "take 19 (drop off mem) = take 19 (drop off (take n mem))"
    using n by (intro take_drop_take [symmetric]) simp
  have a': "take 19 (drop off mem') = take 19 (drop off (take n mem'))"
    using n by (intro take_drop_take [symmetric]) simp
  have b: "take (strlen (name v) + 1) (drop (off + 19) mem)
           = take (strlen (name v) + 1) (drop (off + 19) (take n mem))"
    using n by (intro take_drop_take [symmetric]) simp
  have b': "take (strlen (name v) + 1) (drop (off + 19) mem')
           = take (strlen (name v) + 1) (drop (off + 19) (take n mem'))"
    using n by (intro take_drop_take [symmetric]) simp
  show ?thesis unfolding record_at_def a a' b b' eq ..
qed

lemma total_size_Cons [simp]: "total_size sz (v # vs) = rec_size sz v + total_size sz vs"
  by (simp add: total_size_def)

lemma total_size_Nil [simp]: "total_size sz [] = 0"
  by (simp add: total_size_def)

lemma length_emit_records:
  "19 \<le> sz \<Longrightarrow> off + total_size sz vs \<le> length mem
   \<Longrightarrow> length (emit_records sz off vs mem) = length mem"
proof (induction vs arbitrary: off mem)
  case Nil
  then show ?case by simp
next
  case (Cons v vs)
  have l: "length (write_record sz off v mem) = length mem"
    using Cons.prems by (intro length_write_record) simp_all
  have "length (emit_records sz (off + rec_size sz v) vs (write_record sz off v mem))
        = length (write_record sz off v mem)"
    using Cons.prems l by (intro Cons.IH) (simp_all add: ac_simps)
  then show ?case using l by simp
qed

lemma take_emit_records:
  "19 \<le> sz \<Longrightarrow> off + total_size sz vs \<le> length mem \<Longrightarrow> n \<le> off
   \<Longrightarrow> take n (emit_records sz off vs mem) = take n mem"
proof (induction vs arbitrary: off mem)
  case Nil
  then show ?case by simp
next
  case (Cons v vs)
  have l: "length (write_record sz off v mem) = length mem"
    using Cons.prems by (intro length_write_record) simp_all
  have "take n (emit_records sz (off + rec_size sz v) vs (write_record sz off v mem))
        = take n (write_record sz off v mem)"
    using Cons.prems l by (intro Cons.IH) (simp_all add: ac_simps)
  also have "\<dots> = take n mem"
    using Cons.prems by (intro take_write_record) simp_all
  finally show ?case by simp
qed

lemma drop_emit_records:
  "19 \<le> sz \<Longrightarrow> off + total_size sz vs \<le> length mem \<Longrightarrow> off + total_size sz vs \<le> n
   \<Longrightarrow> drop n (emit_records sz off vs mem) = drop n mem"
proof (induction vs arbitrary: off mem)
  case Nil
  then show ?case by simp
next
  case (Cons v vs)
  have l: "length (write_record sz off v mem) = length mem"
    using Cons.prems by (intro length_write_record) simp_all
  have "drop n (emit_records sz (off + rec_size sz v) vs (write_record sz off v mem))
        = drop n (write_record sz off v mem)"
    using Cons.prems l by (intro Cons.IH) (simp_all add: ac_simps)
  also have "\<dots> = drop n mem"
    using Cons.prems by (intro drop_write_record) simp_all
  finally show ?case by simp
qed

lemma record_at_emit_records:
  "19 \<le> sz \<Longrightarrow> off + total_size sz vs \<le> length mem \<Longrightarrow> j < length vs
   \<Longrightarrow> record_at sz (emit_records sz off vs mem) (off + total_size sz (take j vs)) (vs ! j)"
proof (induction vs arbitrary: off mem j)
  case Nil
  then show ?case by simp
next
  case (Cons v vs)
  let ?m1 = "write_record sz off v mem"
  let ?o1 = "off + rec_size sz v"
  have l: "length ?m1 = length mem"
    using Cons.prems by (intro length_write_record) simp_all
  have fit1: "?o1 + total_size sz vs \<le> length ?m1"
    using Cons.prems l by (simp add: ac_simps)
  show ?case
  proof (cases j)
    case 0
    have t: "take ?o1 (emit_records sz ?o1 vs ?m1) = take ?o1 ?m1"
      using Cons.prems(1) fit1 by (intro take_emit_records) simp_all
    have "record_at sz (emit_records sz ?o1 vs ?m1) off v = record_at sz ?m1 off v"
      using t rec_size_ge [OF Cons.prems(1), of v] by (intro record_at_cong [of ?o1]) simp_all
    moreover have "record_at sz ?m1 off v"
      using Cons.prems by (intro record_at_write_record) simp_all
    ultimately show ?thesis using 0 by simp
  next
    case (Suc i)
    have "record_at sz (emit_records sz ?o1 vs ?m1) (?o1 + total_size sz (take i vs)) (vs ! i)"
      using Cons.prems Suc fit1 by (intro Cons.IH) simp_all
    then show ?thesis using Suc by (simp add: ac_simps)
  qed
qed

subsection \<open>The walk of the directory\<close>

lemma walk_skip:
  "curr_index c + int (length vs) \<le> h_pos c
   \<Longrightarrow> getdents_walk sz vs c = Inr (0, c\<lparr>curr_index := curr_index c + int (length vs)\<rparr>)"
proof (induction vs arbitrary: c)
  case Nil
  then show ?case by simp
next
  case (Cons v vs)
  let ?c1 = "c\<lparr>curr_index := curr_index c + 1\<rparr>"
  have lt: "curr_index c < h_pos c" using Cons.prems by simp
  have cb: "vfs_getdents_cb sz v c = Inr (0, ?c1)"
    using lt by (simp add: vfs_getdents_cb_def)
  have "getdents_walk sz vs ?c1
        = Inr (0, ?c1\<lparr>curr_index := curr_index ?c1 + int (length vs)\<rparr>)"
    using Cons.prems by (intro Cons.IH) simp
  then show ?case by (simp add: cb ac_simps)
qed

lemma walk_append:
  "getdents_walk sz xs c = Inr (0, c') \<Longrightarrow> getdents_walk sz (xs @ ys) c = getdents_walk sz ys c'"
proof (induction xs arbitrary: c)
  case Nil
  then show ?case by simp
next
  case (Cons x xs)
  show ?case
  proof (cases "vfs_getdents_cb sz x c")
    case (Inl p)
    then show ?thesis using Cons.prems by simp
  next
    case (Inr r)
    obtain rc c1 where r: "r = (rc, c1)" by (cases r)
    show ?thesis
    proof (cases "rc = 0")
      case True
      have "getdents_walk sz xs c1 = Inr (0, c')" using Cons.prems Inr r True by simp
      then have "getdents_walk sz (xs @ ys) c1 = getdents_walk sz ys c'" by (rule Cons.IH)
      then show ?thesis using Inr r True by simp
    next
      case False
      then show ?thesis using Cons.prems Inr r by simp
    qed
  qed
qed

lemma copy_to_user_ok:
  "off + length bs \<le> length mem \<Longrightarrow> copy_to_user mem off bs = (0, overwrite mem off bs)"
  by (simp add: copy_to_user_def overwrite_def)

lemma cb_stop:
  assumes "\<not> curr_index c < h_pos c" "offset c = of_nat ofs" "buf_size c = of_nat B"
      and "B < 2 ^ 31" "ofs \<le> B" "rec_size sz v < 2 ^ 16" "type v \<noteq> VFS_NONE"
      and "B < ofs + rec_size sz v"
  shows "vfs_getdents_cb sz v c = Inr (if ofs = 0 then - EINVAL else int ofs, c)"
  using cb_unfold [OF assms(1-5) refl assms(6,7)] assms(8) by simp

lemma cb_emit:
  assumes pre: "\<not> curr_index c < h_pos c" "offset c = of_nat ofs" "buf_size c = of_nat B"
      "B < 2 ^ 31" "ofs \<le> B"
      and small: "rec_size sz v < 2 ^ 16" and ty: "type v \<noteq> VFS_NONE"
      and sz: "19 \<le> sz"
      and fit: "ofs + rec_size sz v \<le> B"
      and mapped: "ofs + rec_size sz v \<le> length (user_mem c)"
  shows "vfs_getdents_cb sz v c =
     Inr (0, c\<lparr>ent := record_header sz ofs v,
               user_mem := write_record sz ofs v (user_mem c),
               offset := of_nat (ofs + rec_size sz v),
               curr_index := curr_index c + 1,
               h_pos := h_pos c + 1\<rparr>)"
proof -
  let ?hdr = "dirent_bytes sz (record_header sz ofs v)"
  have lh: "length ?hdr = sz" by (rule length_dirent_bytes [OF sz])
  have h: "ofs + length ?hdr \<le> length (user_mem c)"
    using mapped rec_size_ge_sz [of sz v] by (simp add: lh)
  have c1: "copy_to_user (user_mem c) ofs ?hdr = (0, overwrite (user_mem c) ofs ?hdr)"
    using h by (rule copy_to_user_ok)
  have l1: "length (overwrite (user_mem c) ofs ?hdr) = length (user_mem c)"
    using h by (rule length_overwrite)
  have n: "ofs + 19 + length (c_bytes (name v)) \<le> length (overwrite (user_mem c) ofs ?hdr)"
    using mapped rec_size_ge [OF sz, of v] by (simp add: l1 length_c_bytes)
  have c2: "copy_to_user (overwrite (user_mem c) ofs ?hdr) (ofs + 19) (c_bytes (name v))
            = (0, write_record sz ofs v (user_mem c))"
    unfolding write_record_def using n by (rule copy_to_user_ok)
  have nf: "\<not> B < ofs + rec_size sz v" using fit by simp
  show ?thesis
    unfolding cb_unfold [OF pre refl small ty]
    by (simp only: nf if_False Let_def c1 c2 prod.case) simp
qed

lemma fit_count_le: "fit_count sz B ofs vs \<le> length vs"
  by (induction vs arbitrary: ofs) simp_all

lemma fit_count_total:
  "ofs \<le> B \<Longrightarrow> ofs + total_size sz (take (fit_count sz B ofs vs) vs) \<le> B"
proof (induction vs arbitrary: ofs)
  case Nil
  then show ?case by simp
next
  case (Cons v vs)
  show ?case
  proof (cases "ofs + rec_size sz v \<le> B")
    case True
    have "ofs + rec_size sz v
          + total_size sz (take (fit_count sz B (ofs + rec_size sz v) vs) vs) \<le> B"
      using True by (rule Cons.IH)
    then show ?thesis using True by (simp add: ac_simps)
  next
    case False
    then show ?thesis using Cons.prems by simp
  qed
qed

lemma walk_emit:
  assumes sz: "19 \<le> sz" and B: "B < 2 ^ 31"
  shows "curr_index c = h_pos c \<Longrightarrow> offset c = of_nat ofs \<Longrightarrow> buf_size c = of_nat B
    \<Longrightarrow> ofs \<le> B \<Longrightarrow> B \<le> length (user_mem c)
    \<Longrightarrow> \<forall>v\<in>set vs. rec_size sz v < 2 ^ 16 \<and> type v \<noteq> VFS_NONE
    \<Longrightarrow> \<exists>c'. getdents_walk sz vs c =
              Inr (if fit_count sz B ofs vs = length vs then 0
                   else if ofs + total_size sz (take (fit_count sz B ofs vs) vs) = 0
                        then - EINVAL
                        else int (ofs + total_size sz (take (fit_count sz B ofs vs) vs)), c')
           \<and> user_mem c' = emit_records sz ofs (take (fit_count sz B ofs vs) vs) (user_mem c)
           \<and> offset c' = of_nat (ofs + total_size sz (take (fit_count sz B ofs vs) vs))
           \<and> h_pos c' = h_pos c + int (fit_count sz B ofs vs)"
proof (induction vs arbitrary: c ofs)
  case Nil
  then show ?case by simp
next
  case (Cons v vs)
  have idx: "\<not> curr_index c < h_pos c" using Cons.prems(1) by simp
  have small: "rec_size sz v < 2 ^ 16" and ty: "type v \<noteq> VFS_NONE"
    using Cons.prems(6) by simp_all
  show ?case
  proof (cases "ofs + rec_size sz v \<le> B")
    case False
    have "vfs_getdents_cb sz v c = Inr (if ofs = 0 then - EINVAL else int ofs, c)"
      using False by (intro cb_stop [OF idx Cons.prems(2,3) B Cons.prems(4) small ty]) simp
    then show ?thesis using False Cons.prems(2) by (auto simp add: EINVAL_def)
  next
    case True
    let ?o1 = "ofs + rec_size sz v"
    let ?c1 = "c\<lparr>ent := record_header sz ofs v,
                  user_mem := write_record sz ofs v (user_mem c),
                  offset := of_nat ?o1,
                  curr_index := curr_index c + 1,
                  h_pos := h_pos c + 1\<rparr>"
    have mapped: "ofs + rec_size sz v \<le> length (user_mem c)"
      using True Cons.prems(5) by simp
    have cb: "vfs_getdents_cb sz v c = Inr (0, ?c1)"
      using idx Cons.prems(2,3) B Cons.prems(4) small ty sz True mapped
      by (rule cb_emit)
    have l: "length (write_record sz ofs v (user_mem c)) = length (user_mem c)"
      using sz mapped by (rule length_write_record)
    have "\<exists>c'. getdents_walk sz vs ?c1 =
              Inr (if fit_count sz B ?o1 vs = length vs then 0
                   else if ?o1 + total_size sz (take (fit_count sz B ?o1 vs) vs) = 0
                        then - EINVAL
                        else int (?o1 + total_size sz (take (fit_count sz B ?o1 vs) vs)), c')
           \<and> user_mem c' = emit_records sz ?o1 (take (fit_count sz B ?o1 vs) vs) (user_mem ?c1)
           \<and> offset c' = of_nat (?o1 + total_size sz (take (fit_count sz B ?o1 vs) vs))
           \<and> h_pos c' = h_pos ?c1 + int (fit_count sz B ?o1 vs)"
      using Cons.prems True l by (intro Cons.IH) simp_all
    then obtain c' where
      w: "getdents_walk sz vs ?c1 =
              Inr (if fit_count sz B ?o1 vs = length vs then 0
                   else if ?o1 + total_size sz (take (fit_count sz B ?o1 vs) vs) = 0
                        then - EINVAL
                        else int (?o1 + total_size sz (take (fit_count sz B ?o1 vs) vs)), c')"
      and m: "user_mem c' = emit_records sz ?o1 (take (fit_count sz B ?o1 vs) vs) (user_mem ?c1)"
      and o: "offset c' = of_nat (?o1 + total_size sz (take (fit_count sz B ?o1 vs) vs))"
      and p: "h_pos c' = h_pos ?c1 + int (fit_count sz B ?o1 vs)"
      by blast
    have pos: "0 < rec_size sz v" using sz rec_size_ge_sz [of sz v] by simp
    have "getdents_walk sz (v # vs) c = getdents_walk sz vs ?c1" by (simp add: cb)
    then show ?thesis
      using w m o p True pos by (intro exI [of _ c']) (simp add: ac_simps)
  qed
qed

lemma total_size_pos:
  "0 < sz \<Longrightarrow> (total_size sz vs = 0) = (vs = [])"
  by (cases vs) (simp_all add: rec_size_def)

lemma vfs_getdents64_run:
  assumes sz: "19 \<le> sz"
      and ok: "\<forall>v\<in>set dir. rec_size sz v < 2 ^ 16 \<and> type v \<noteq> VFS_NONE"
      and B: "unat bsize < 2 ^ 31"
      and mapped: "unat bsize \<le> length mem"
      and k: "k = fit_count sz (unat bsize) 0 (drop q dir)"
  shows "vfs_getdents64 sz dir (int q) mem bsize =
     Inr (if k = 0 \<and> drop q dir \<noteq> [] then (- EINVAL, int q, mem)
          else (int (total_size sz (take k (drop q dir))), int (q + k),
                emit_records sz 0 (take k (drop q dir)) mem))"
proof -
  let ?c0 = "\<lparr>h_pos = int q, user_mem = mem, buf_size = bsize, offset = 0, curr_index = 0,
              ent = \<lparr>d_ino = 0, d_off = 0, d_reclen = 0, d_type = 0\<rparr>\<rparr>"
  let ?c1 = "?c0\<lparr>curr_index := curr_index ?c0 + int (length (take q dir))\<rparr>"
  let ?pending = "drop q dir"
  have run: "vfs_getdents64 sz dir (int q) mem bsize =
       (case getdents_walk sz dir ?c0 of
           Inl p \<Rightarrow> Inl p
         | Inr (rc, ctx') \<Rightarrow>
             Inr (if rc = 0 then sint (offset ctx') else rc, h_pos ctx', user_mem ctx'))"
    by (simp add: vfs_getdents64_def)
  have skip: "getdents_walk sz (take q dir) ?c0 = Inr (0, ?c1)"
    by (rule walk_skip) simp
  have "getdents_walk sz (take q dir @ ?pending) ?c0 = getdents_walk sz ?pending ?c1"
    using skip by (rule walk_append)
  then have walk: "getdents_walk sz dir ?c0 = getdents_walk sz ?pending ?c1" by simp
  show ?thesis
  proof (cases "?pending = []")
    case True
    have "k = 0" using k True by simp
    then show ?thesis unfolding run walk using True by simp
  next
    case False
    then have q: "q < length dir" by simp
    have okp: "\<forall>v\<in>set ?pending. rec_size sz v < 2 ^ 16 \<and> type v \<noteq> VFS_NONE"
      using ok by (meson in_set_dropD)
    have "\<exists>c'. getdents_walk sz ?pending ?c1 =
              Inr (if fit_count sz (unat bsize) 0 ?pending = length ?pending then 0
                   else if 0 + total_size sz (take (fit_count sz (unat bsize) 0 ?pending) ?pending) = 0
                        then - EINVAL
                        else int (0 + total_size sz (take (fit_count sz (unat bsize) 0 ?pending) ?pending)), c')
           \<and> user_mem c' = emit_records sz 0 (take (fit_count sz (unat bsize) 0 ?pending) ?pending) (user_mem ?c1)
           \<and> offset c' = of_nat (0 + total_size sz (take (fit_count sz (unat bsize) 0 ?pending) ?pending))
           \<and> h_pos c' = h_pos ?c1 + int (fit_count sz (unat bsize) 0 ?pending)"
      using q mapped okp by (intro walk_emit [OF sz B]) simp_all
    then obtain c' where
      w: "getdents_walk sz ?pending ?c1 =
              Inr (if k = length ?pending then 0
                   else if total_size sz (take k ?pending) = 0 then - EINVAL
                        else int (total_size sz (take k ?pending)), c')"
      and m: "user_mem c' = emit_records sz 0 (take k ?pending) mem"
      and o: "offset c' = of_nat (total_size sz (take k ?pending))"
      and p: "h_pos c' = int q + int k"
      unfolding k by auto
    have kl: "k \<le> length ?pending" unfolding k by (rule fit_count_le)
    have tot: "total_size sz (take k ?pending) \<le> unat bsize"
      using fit_count_total [of 0 "unat bsize" sz ?pending] unfolding k by simp
    have si: "sint (of_nat (total_size sz (take k ?pending)) :: u32)
              = int (total_size sz (take k ?pending))"
      using tot B by (intro sint_u32_of_nat) simp
    have z: "(total_size sz (take k ?pending) = 0) = (k = 0)"
      using total_size_pos [of sz "take k ?pending"] sz False kl by auto
    show ?thesis
    proof (cases "k = 0")
      case True
      then show ?thesis unfolding run walk w using False m p by (simp add: EINVAL_def)
    next
      case k0: False
      show ?thesis
      proof (cases "k = length ?pending")
        case True
        then show ?thesis unfolding run walk w using k0 m p o si by simp
      next
        case kn: False
        then show ?thesis unfolding run walk w using k0 m p z by simp
      qed
    qed
  qed
qed

subsection \<open>A fault of the copy to user memory\<close>

lemma copy_to_user_fault:
  "length mem < off + length bs
   \<Longrightarrow> copy_to_user mem off bs = (- 1, take off mem @ take (length mem - off) bs)"
  by (simp add: copy_to_user_def)

lemma cb_fault:
  assumes pre: "\<not> curr_index c < h_pos c" "offset c = of_nat ofs" "buf_size c = of_nat B"
      "B < 2 ^ 31" "ofs \<le> B"
      and small: "rec_size sz v < 2 ^ 16" and ty: "type v \<noteq> VFS_NONE"
      and sz: "19 \<le> sz"
      and fit: "ofs + rec_size sz v \<le> B"
      and inside: "ofs \<le> length (user_mem c)"
      and fault: "length (user_mem c) < ofs + sz
                  \<or> length (user_mem c) < ofs + strlen (name v) + 20"
  shows "\<exists>c'. vfs_getdents_cb sz v c = Inr (- EFAULT, c')
             \<and> h_pos c' = h_pos c
             \<and> length (user_mem c') = length (user_mem c)
             \<and> take ofs (user_mem c') = take ofs (user_mem c)"
proof -
  let ?mem = "user_mem c"
  let ?hdr = "dirent_bytes sz (record_header sz ofs v)"
  let ?nm = "c_bytes (name v)"
  let ?c1 = "c\<lparr>ent := record_header sz ofs v\<rparr>"
  have lh: "length ?hdr = sz" by (rule length_dirent_bytes [OF sz])
  have nf: "\<not> B < ofs + rec_size sz v" using fit by simp
  have lt: "length (take ofs ?mem) = ofs" using inside by simp
  show ?thesis
  proof (cases "length ?mem < ofs + sz")
    case True
    let ?m1 = "take ofs ?mem @ take (length ?mem - ofs) ?hdr"
    have c1: "copy_to_user ?mem ofs ?hdr = (- 1, ?m1)"
      using True by (intro copy_to_user_fault) (simp add: lh)
    have cb: "vfs_getdents_cb sz v c = Inr (- EFAULT, ?c1\<lparr>user_mem := ?m1\<rparr>)"
      unfolding cb_unfold [OF pre refl small ty]
      by (simp only: nf if_False Let_def c1 prod.case) simp
    have len: "length ?m1 = length ?mem" using True inside by (simp add: lh)
    have tk: "take ofs ?m1 = take ofs ?mem" using lt by simp
    show ?thesis using cb len tk by (intro exI [of _ "?c1\<lparr>user_mem := ?m1\<rparr>"]) simp
  next
    case False
    then have f2: "length ?mem < ofs + strlen (name v) + 20" using fault by simp
    let ?m1 = "overwrite ?mem ofs ?hdr"
    have h: "ofs + length ?hdr \<le> length ?mem" using False by (simp add: lh)
    have c1: "copy_to_user ?mem ofs ?hdr = (0, ?m1)" using h by (rule copy_to_user_ok)
    have l1: "length ?m1 = length ?mem" using h by (rule length_overwrite)
    let ?m2 = "take (ofs + 19) ?m1 @ take (length ?m1 - (ofs + 19)) ?nm"
    have c2: "copy_to_user ?m1 (ofs + 19) ?nm = (- 1, ?m2)"
      using f2 by (intro copy_to_user_fault) (simp add: l1 length_c_bytes)
    have cb: "vfs_getdents_cb sz v c = Inr (- EFAULT, ?c1\<lparr>user_mem := ?m2\<rparr>)"
      unfolding cb_unfold [OF pre refl small ty]
      by (simp only: nf if_False Let_def c1 c2 prod.case) simp
    have a19: "ofs + 19 \<le> length ?m1" using False sz by (simp add: l1)
    have len: "length ?m2 = length ?mem"
      using a19 f2 by (simp add: l1 length_c_bytes)
    have "take ofs ?m2 = take ofs (take (ofs + 19) ?m1)" using a19 by simp
    also have "\<dots> = take ofs ?m1" by (simp add: min_absorb1)
    also have "\<dots> = take ofs ?mem" using inside by (intro take_overwrite) simp_all
    finally have tk: "take ofs ?m2 = take ofs ?mem" .
    show ?thesis using cb len tk by (intro exI [of _ "?c1\<lparr>user_mem := ?m2\<rparr>"]) simp
  qed
qed

lemma walk_fault:
  assumes sz: "19 \<le> sz" and B: "B < 2 ^ 31"
  shows "curr_index c = h_pos c \<Longrightarrow> offset c = of_nat ofs \<Longrightarrow> buf_size c = of_nat B
    \<Longrightarrow> ofs + total_size sz xs + rec_size sz v \<le> B
    \<Longrightarrow> ofs + total_size sz xs \<le> length (user_mem c)
    \<Longrightarrow> length (user_mem c) < ofs + total_size sz xs + sz
        \<or> length (user_mem c) < ofs + total_size sz xs + strlen (name v) + 20
    \<Longrightarrow> \<forall>x\<in>set (v # xs). rec_size sz x < 2 ^ 16 \<and> type x \<noteq> VFS_NONE
    \<Longrightarrow> \<exists>c'. getdents_walk sz (xs @ v # rest) c = Inr (- EFAULT, c')
           \<and> h_pos c' = h_pos c + int (length xs)
           \<and> length (user_mem c') = length (user_mem c)
           \<and> take (ofs + total_size sz xs) (user_mem c')
               = take (ofs + total_size sz xs) (emit_records sz ofs xs (user_mem c))"
proof (induction xs arbitrary: c ofs)
  case Nil
  have idx: "\<not> curr_index c < h_pos c" using Nil.prems(1) by simp
  have "\<exists>c'. vfs_getdents_cb sz v c = Inr (- EFAULT, c')
             \<and> h_pos c' = h_pos c
             \<and> length (user_mem c') = length (user_mem c)
             \<and> take ofs (user_mem c') = take ofs (user_mem c)"
    using Nil.prems by (intro cb_fault [OF idx Nil.prems(2,3) B _ _ _ sz]) simp_all
  then obtain c' where cb: "vfs_getdents_cb sz v c = Inr (- EFAULT, c')"
    and r: "h_pos c' = h_pos c" "length (user_mem c') = length (user_mem c)"
           "take ofs (user_mem c') = take ofs (user_mem c)"
    by blast
  have "getdents_walk sz ([] @ v # rest) c = Inr (- EFAULT, c')"
    by (simp add: cb EFAULT_def)
  then show ?case using r by (intro exI [of _ c']) simp
next
  case (Cons x xs)
  have idx: "\<not> curr_index c < h_pos c" using Cons.prems(1) by simp
  let ?o1 = "ofs + rec_size sz x"
  let ?c1 = "c\<lparr>ent := record_header sz ofs x,
                user_mem := write_record sz ofs x (user_mem c),
                offset := of_nat ?o1,
                curr_index := curr_index c + 1,
                h_pos := h_pos c + 1\<rparr>"
  have mapped: "ofs + rec_size sz x \<le> length (user_mem c)" using Cons.prems(5) by simp
  have cb: "vfs_getdents_cb sz x c = Inr (0, ?c1)"
    using Cons.prems mapped by (intro cb_emit [OF idx Cons.prems(2,3) B _ _ _ sz]) simp_all
  have l: "length (write_record sz ofs x (user_mem c)) = length (user_mem c)"
    using sz mapped by (rule length_write_record)
  have "\<exists>c'. getdents_walk sz (xs @ v # rest) ?c1 = Inr (- EFAULT, c')
           \<and> h_pos c' = h_pos ?c1 + int (length xs)
           \<and> length (user_mem c') = length (user_mem ?c1)
           \<and> take (?o1 + total_size sz xs) (user_mem c')
               = take (?o1 + total_size sz xs) (emit_records sz ?o1 xs (user_mem ?c1))"
    using Cons.prems l by (intro Cons.IH) (simp_all add: ac_simps)
  then obtain c' where w: "getdents_walk sz (xs @ v # rest) ?c1 = Inr (- EFAULT, c')"
    and r: "h_pos c' = h_pos ?c1 + int (length xs)"
           "length (user_mem c') = length (user_mem ?c1)"
           "take (?o1 + total_size sz xs) (user_mem c')
               = take (?o1 + total_size sz xs) (emit_records sz ?o1 xs (user_mem ?c1))"
    by blast
  have "getdents_walk sz ((x # xs) @ v # rest) c = Inr (- EFAULT, c')"
    using w by (simp add: cb)
  then show ?case using r l by (intro exI [of _ c']) (simp add: ac_simps)
qed

lemma total_size_append [simp]:
  "total_size sz (xs @ ys) = total_size sz xs + total_size sz ys"
  by (simp add: total_size_def)

lemma total_size_take_Suc:
  "j < length vs \<Longrightarrow> total_size sz (take (Suc j) vs) = total_size sz (take j vs) + rec_size sz (vs ! j)"
  by (simp add: take_Suc_conv_app_nth)

lemma total_size_take_le:
  "total_size sz (take j vs) \<le> total_size sz vs"
proof -
  have "total_size sz (take j vs @ drop j vs) = total_size sz (take j vs) + total_size sz (drop j vs)"
    by (rule total_size_append)
  then show ?thesis by simp
qed

subsection \<open>A whole call\<close>

lemma fit_count_eq_0:
  "(fit_count sz B 0 vs = 0) = (vs = [] \<or> B < rec_size sz (hd vs))"
  by (cases vs) auto

lemma fit_count_max:
  "fit_count sz B ofs vs = length vs
   \<or> B < ofs + total_size sz (take (Suc (fit_count sz B ofs vs)) vs)"
proof (induction vs arbitrary: ofs)
  case Nil
  then show ?case by simp
next
  case (Cons v vs)
  show ?case
  proof (cases "ofs + rec_size sz v \<le> B")
    case True
    show ?thesis using Cons.IH [of "ofs + rec_size sz v"] True by (auto simp add: ac_simps)
  next
    case False
    then show ?thesis by simp
  qed
qed

lemma fit_count_all:
  "ofs + total_size sz vs \<le> B \<Longrightarrow> fit_count sz B ofs vs = length vs"
proof (induction vs arbitrary: ofs)
  case Nil
  then show ?case by simp
next
  case (Cons v vs)
  have "fit_count sz B (ofs + rec_size sz v) vs = length vs"
    using Cons.prems by (intro Cons.IH) (simp add: ac_simps)
  then show ?case using Cons.prems by simp
qed

lemma vfs_getdents64_emits:
  assumes sz: "19 \<le> sz"
      and ok: "\<forall>v\<in>set dir. rec_size sz v < 2 ^ 16 \<and> type v \<noteq> VFS_NONE"
      and B: "unat bsize < 2 ^ 31"
      and mapped: "unat bsize \<le> length mem"
      and k: "k = fit_count sz (unat bsize) 0 (drop q dir)"
      and some: "\<not> (k = 0 \<and> drop q dir \<noteq> [])"
  shows "\<exists>mem'. vfs_getdents64 sz dir (int q) mem bsize
                 = Inr (int (total_size sz (take k (drop q dir))), int (q + k), mem')
             \<and> length mem' = length mem
             \<and> drop (total_size sz (take k (drop q dir))) mem'
                 = drop (total_size sz (take k (drop q dir))) mem
             \<and> records_at sz mem' (take k (drop q dir))"
proof -
  let ?vs = "take k (drop q dir)"
  let ?mem' = "emit_records sz 0 ?vs mem"
  have run: "vfs_getdents64 sz dir (int q) mem bsize
             = Inr (int (total_size sz ?vs), int (q + k), ?mem')"
    unfolding vfs_getdents64_run [OF sz ok B mapped k] using some by (simp only: if_False)
  have tot: "0 + total_size sz ?vs \<le> length mem"
    using fit_count_total [of 0 "unat bsize" sz "drop q dir"] mapped unfolding k by simp
  have len: "length ?mem' = length mem" using sz tot by (rule length_emit_records)
  have dr: "drop (total_size sz ?vs) ?mem' = drop (total_size sz ?vs) mem"
    using sz tot by (rule drop_emit_records) simp
  have "record_at sz ?mem' (total_size sz (take j ?vs)) (?vs ! j)" if "j < length ?vs" for j
    using record_at_emit_records [OF sz tot that] by simp
  then have ra: "records_at sz ?mem' ?vs" unfolding records_at_def by simp
  show ?thesis using run len dr ra by (intro exI [of _ ?mem']) simp
qed

lemma vfs_getdents64_faults:
  assumes sz: "19 \<le> sz"
      and ok: "\<forall>v\<in>set dir. rec_size sz v < 2 ^ 16 \<and> type v \<noteq> VFS_NONE"
      and B: "unat bsize < 2 ^ 31"
      and kq: "q + k < length dir"
      and fit: "total_size sz (take k (drop q dir)) + rec_size sz (dir ! (q + k)) \<le> unat bsize"
      and inside: "total_size sz (take k (drop q dir)) \<le> length mem"
      and fault: "length mem < total_size sz (take k (drop q dir)) + sz
                  \<or> length mem < total_size sz (take k (drop q dir))
                                   + strlen (name (dir ! (q + k))) + 20"
  shows "\<exists>mem'. vfs_getdents64 sz dir (int q) mem bsize = Inr (- EFAULT, int (q + k), mem')
             \<and> length mem' = length mem
             \<and> records_at sz mem' (take k (drop q dir))"
proof -
  let ?c0 = "\<lparr>h_pos = int q, user_mem = mem, buf_size = bsize, offset = 0, curr_index = 0,
              ent = \<lparr>d_ino = 0, d_off = 0, d_reclen = 0, d_type = 0\<rparr>\<rparr>"
  let ?c1 = "?c0\<lparr>curr_index := curr_index ?c0 + int (length (take q dir))\<rparr>"
  let ?pending = "drop q dir"
  let ?xs = "take k ?pending"
  let ?v = "dir ! (q + k)"
  let ?rest = "drop (Suc k) ?pending"
  let ?T = "total_size sz ?xs"
  have run: "vfs_getdents64 sz dir (int q) mem bsize =
       (case getdents_walk sz dir ?c0 of
           Inl p \<Rightarrow> Inl p
         | Inr (rc, ctx') \<Rightarrow>
             Inr (if rc = 0 then sint (offset ctx') else rc, h_pos ctx', user_mem ctx'))"
    by (simp add: vfs_getdents64_def)
  have skip: "getdents_walk sz (take q dir) ?c0 = Inr (0, ?c1)"
    by (rule walk_skip) simp
  have "getdents_walk sz (take q dir @ ?pending) ?c0 = getdents_walk sz ?pending ?c1"
    using skip by (rule walk_append)
  then have walk: "getdents_walk sz dir ?c0 = getdents_walk sz ?pending ?c1" by simp
  have kp: "k < length ?pending" using kq by simp
  have v: "?pending ! k = ?v" using kq by simp
  have split: "?pending = ?xs @ ?v # ?rest"
    using id_take_nth_drop [OF kp] v by simp
  have lx: "length ?xs = k" using kp by simp
  have vin: "?v \<in> set dir" using kq by simp
  have xin: "set ?xs \<subseteq> set dir" by (meson in_set_dropD in_set_takeD subsetI)
  have okx: "\<forall>x\<in>set (?v # ?xs). rec_size sz x < 2 ^ 16 \<and> type x \<noteq> VFS_NONE"
    using ok vin xin by auto
  have len_q: "length (take q dir) = q" using kq by simp
  have "\<exists>c'. getdents_walk sz (?xs @ ?v # ?rest) ?c1 = Inr (- EFAULT, c')
           \<and> h_pos c' = h_pos ?c1 + int (length ?xs)
           \<and> length (user_mem c') = length (user_mem ?c1)
           \<and> take (0 + total_size sz ?xs) (user_mem c')
               = take (0 + total_size sz ?xs) (emit_records sz 0 ?xs (user_mem ?c1))"
    using fit inside fault okx len_q
    by (intro walk_fault [OF sz B]) simp_all
  then obtain c' where w: "getdents_walk sz ?pending ?c1 = Inr (- EFAULT, c')"
    and p: "h_pos c' = int q + int k"
    and l: "length (user_mem c') = length mem"
    and t: "take ?T (user_mem c') = take ?T (emit_records sz 0 ?xs mem)"
    using split lx by auto
  have res: "vfs_getdents64 sz dir (int q) mem bsize = Inr (- EFAULT, int (q + k), user_mem c')"
    unfolding run walk w using p by (simp add: EFAULT_def)
  have tot: "0 + ?T \<le> length mem" using inside by simp
  have "record_at sz (user_mem c') (total_size sz (take j ?xs)) (?xs ! j)"
    if j: "j < length ?xs" for j
  proof -
    have e: "record_at sz (emit_records sz 0 ?xs mem) (total_size sz (take j ?xs)) (?xs ! j)"
      using record_at_emit_records [OF sz tot j] by simp
    have "total_size sz (take (Suc j) ?xs) \<le> ?T" by (rule total_size_take_le)
    then have "total_size sz (take j ?xs) + rec_size sz (?xs ! j) \<le> ?T"
      using total_size_take_Suc [OF j, of sz] by simp
    then have n: "total_size sz (take j ?xs) + strlen (name (?xs ! j)) + 20 \<le> ?T"
      using rec_size_ge [OF sz, of "?xs ! j"] by simp
    show ?thesis using record_at_cong [OF t n, of sz] e by simp
  qed
  then have ra: "records_at sz (user_mem c') ?xs" unfolding records_at_def by simp
  show ?thesis using res l ra by (intro exI [of _ "user_mem c'"]) simp
qed

subsection \<open>Listing a directory\<close>

lemma one_entry_call:
  assumes sz: "19 \<le> sz"
      and ok: "\<forall>v\<in>set dir. rec_size sz v < 2 ^ 16 \<and> type v \<noteq> VFS_NONE"
      and B: "unat bsize < 2 ^ 31"
      and one: "one_entry_buffer sz dir (unat bsize)"
      and q: "q < length dir"
      and mapped: "unat bsize \<le> length mem"
  shows "\<exists>mem'. vfs_getdents64 sz dir (int q) mem bsize
                 = Inr (int (rec_size sz (dir ! q)), int (Suc q), mem')
             \<and> length mem' = length mem
             \<and> record_at sz mem' 0 (dir ! q)"
proof -
  let ?B = "unat bsize"
  let ?rs = "rec_size sz (dir ! q)"
  have fits: "?rs \<le> ?B" using one q by (simp add: one_entry_buffer_def)
  have nxt: "Suc q < length dir \<Longrightarrow> ?B < ?rs + rec_size sz (dir ! Suc q)"
    using one q by (simp add: one_entry_buffer_def)
  have pend: "drop q dir = dir ! q # drop (Suc q) dir"
    using q by (simp add: Cons_nth_drop_Suc)
  have rest: "fit_count sz ?B ?rs (drop (Suc q) dir) = 0"
  proof (cases "Suc q < length dir")
    case True
    have "drop (Suc q) dir = dir ! Suc q # drop (Suc (Suc q)) dir"
      using True by (simp add: Cons_nth_drop_Suc)
    then show ?thesis using nxt [OF True] by simp
  next
    case False
    then show ?thesis by simp
  qed
  have k: "1 = fit_count sz ?B 0 (drop q dir)"
    using fits rest by (simp add: pend)
  have tk: "take 1 (drop q dir) = [dir ! q]" by (simp add: pend)
  have some: "\<not> ((1::nat) = 0 \<and> drop q dir \<noteq> [])" by simp
  obtain mem' where
    r: "vfs_getdents64 sz dir (int q) mem bsize
          = Inr (int (total_size sz (take 1 (drop q dir))), int (q + 1), mem')"
    and l: "length mem' = length mem"
    and ra: "records_at sz mem' (take 1 (drop q dir))"
    using vfs_getdents64_emits [OF sz ok B mapped k some] by blast
  have "record_at sz mem' 0 (dir ! q)"
    using ra unfolding tk records_at_def by simp
  then show ?thesis using r l unfolding tk by (intro exI [of _ mem']) simp
qed

lemma calls_one_entry:
  assumes sz: "19 \<le> sz"
      and ok: "\<forall>v\<in>set dir. rec_size sz v < 2 ^ 16 \<and> type v \<noteq> VFS_NONE"
      and B: "unat bsize < 2 ^ 31"
      and one: "one_entry_buffer sz dir (unat bsize)"
  shows "q + n \<le> length dir \<Longrightarrow> unat bsize \<le> length mem
    \<Longrightarrow> length (getdents_calls sz dir mem bsize n (int q)) = n
      \<and> (\<forall>i<n. \<exists>m. getdents_calls sz dir mem bsize n (int q) ! i
                       = (int (rec_size sz (dir ! (q + i))), int (Suc (q + i)), m)
                   \<and> record_at sz m 0 (dir ! (q + i)))"
proof (induction n arbitrary: q mem)
  case 0
  then show ?case by simp
next
  case (Suc n)
  have q: "q < length dir" using Suc.prems(1) by simp
  obtain mem' where
    r: "vfs_getdents64 sz dir (int q) mem bsize
          = Inr (int (rec_size sz (dir ! q)), int (Suc q), mem')"
    and l: "length mem' = length mem"
    and ra: "record_at sz mem' 0 (dir ! q)"
    using one_entry_call [OF sz ok B one q Suc.prems(2)] by blast
  let ?tl = "getdents_calls sz dir mem' bsize n (int (Suc q))"
  have ih: "length ?tl = n
      \<and> (\<forall>i<n. \<exists>m. ?tl ! i = (int (rec_size sz (dir ! (Suc q + i))), int (Suc (Suc q + i)), m)
                   \<and> record_at sz m 0 (dir ! (Suc q + i)))"
    using Suc.prems l by (intro Suc.IH) simp_all
  have calls: "getdents_calls sz dir mem bsize (Suc n) (int q)
               = (int (rec_size sz (dir ! q)), int (Suc q), mem') # ?tl"
    by (simp add: r)
  have "\<exists>m. ((int (rec_size sz (dir ! q)), int (Suc q), mem') # ?tl) ! i
              = (int (rec_size sz (dir ! (q + i))), int (Suc (q + i)), m)
            \<and> record_at sz m 0 (dir ! (q + i))"
    if i: "i < Suc n" for i
  proof (cases i)
    case 0
    then show ?thesis using ra by simp
  next
    case (Suc j)
    then have "j < n" using i by simp
    then show ?thesis using ih Suc by simp
  qed
  then show ?case unfolding calls using ih by simp
qed

text \<open>
  Claim C7. Take a directory \<open>dir\<close> of entries that have a type and whose records
  are shorter than \<open>2\<^sup>1\<^sup>6\<close> bytes, a handle at the position \<open>q\<close>, and a user buffer of
  \<open>bsize\<close> bytes (less than \<open>2\<^sup>3\<^sup>1\<close>) that is mapped. Let \<open>pending\<close> be the entries
  from \<open>q\<close> on, \<open>k\<close> the number of leading pending records that fit together in the
  buffer, and \<open>T\<close> their size. If the first pending record alone exceeds the
  buffer, \<^verbatim>\<open>vfs_getdents64\<close> returns \<^verbatim>\<open>-EINVAL\<close> and leaves the position and the user
  memory as they were. Otherwise it returns \<open>T\<close>, moves the position to \<open>q + k\<close>, and
  the user memory holds the \<open>k\<close> records, whole and in order, and is unchanged from
  the offset \<open>T\<close> on; the call stops only at the end of the directory or at a record
  that would overflow the buffer. So with a buffer that takes one entry at a time the
  successive calls from the position 0 return the entries one by one, the call
  number \<open>i\<close> the entry \<open>dir ! i\<close>, leaving the position \<open>i + 1\<close>; and one call with a
  buffer that takes the whole directory returns the same entries in the same order.
\<close>

theorem vfs_getdents64_resumable:
  assumes sz: "19 \<le> sz"
      and ok: "\<forall>v\<in>set dir. rec_size sz v < 2 ^ 16 \<and> type v \<noteq> VFS_NONE"
      and B: "unat bsize < 2 ^ 31"
      and mapped: "unat bsize \<le> length mem"
      and pending: "pending = drop q dir"
      and k: "k = fit_count sz (unat bsize) 0 pending"
      and T: "T = total_size sz (take k pending)"
  shows "(pending \<noteq> [] \<and> unat bsize < rec_size sz (hd pending) \<longrightarrow>
            vfs_getdents64 sz dir (int q) mem bsize = Inr (- EINVAL, int q, mem))
       \<and> (pending = [] \<or> rec_size sz (hd pending) \<le> unat bsize \<longrightarrow>
            (\<exists>mem'. vfs_getdents64 sz dir (int q) mem bsize = Inr (int T, int (q + k), mem')
                  \<and> length mem' = length mem
                  \<and> drop T mem' = drop T mem
                  \<and> records_at sz mem' (take k pending))
            \<and> (k = length pending \<or> unat bsize < total_size sz (take (Suc k) pending)))
       \<and> (one_entry_buffer sz dir (unat bsize) \<longrightarrow>
            length (getdents_calls sz dir mem bsize (length dir) 0) = length dir
            \<and> (\<forall>i<length dir. \<exists>m. getdents_calls sz dir mem bsize (length dir) 0 ! i
                                     = (int (rec_size sz (dir ! i)), int (Suc i), m)
                                  \<and> record_at sz m 0 (dir ! i)))
       \<and> (total_size sz dir \<le> unat bsize \<longrightarrow>
            (\<exists>mem'. vfs_getdents64 sz dir 0 mem bsize
                      = Inr (int (total_size sz dir), int (length dir), mem')
                  \<and> records_at sz mem' dir))"
proof (intro conjI impI)
  assume "pending \<noteq> [] \<and> unat bsize < rec_size sz (hd pending)"
  then have "k = 0 \<and> drop q dir \<noteq> []"
    using fit_count_eq_0 [of sz "unat bsize" pending] unfolding k pending by simp
  then show "vfs_getdents64 sz dir (int q) mem bsize = Inr (- EINVAL, int q, mem)"
    unfolding vfs_getdents64_run [OF sz ok B mapped k [unfolded pending]] by simp
next
  assume "pending = [] \<or> rec_size sz (hd pending) \<le> unat bsize"
  then have some: "\<not> (k = 0 \<and> drop q dir \<noteq> [])"
    using fit_count_eq_0 [of sz "unat bsize" pending] unfolding k pending by auto
  show "\<exists>mem'. vfs_getdents64 sz dir (int q) mem bsize = Inr (int T, int (q + k), mem')
                  \<and> length mem' = length mem
                  \<and> drop T mem' = drop T mem
                  \<and> records_at sz mem' (take k pending)"
    using vfs_getdents64_emits [OF sz ok B mapped k [unfolded pending] some]
    unfolding T pending .
next
  show "k = length pending \<or> unat bsize < total_size sz (take (Suc k) pending)"
    using fit_count_max [of sz "unat bsize" 0 pending] unfolding k by simp
next
  assume one: "one_entry_buffer sz dir (unat bsize)"
  have c: "length (getdents_calls sz dir mem bsize (length dir) (int 0)) = length dir
      \<and> (\<forall>i<length dir. \<exists>m. getdents_calls sz dir mem bsize (length dir) (int 0) ! i
                       = (int (rec_size sz (dir ! (0 + i))), int (Suc (0 + i)), m)
                   \<and> record_at sz m 0 (dir ! (0 + i)))"
    using mapped by (intro calls_one_entry [OF sz ok B one]) simp_all
  show "length (getdents_calls sz dir mem bsize (length dir) 0) = length dir"
    using c by simp
  show "\<forall>i<length dir. \<exists>m. getdents_calls sz dir mem bsize (length dir) 0 ! i
                                     = (int (rec_size sz (dir ! i)), int (Suc i), m)
                                  \<and> record_at sz m 0 (dir ! i)"
    using c by simp
next
  assume all: "total_size sz dir \<le> unat bsize"
  have kk: "length dir = fit_count sz (unat bsize) 0 (drop 0 dir)"
    using fit_count_all [of 0 sz dir "unat bsize"] all by simp
  have some: "\<not> (length dir = 0 \<and> drop 0 dir \<noteq> [])" by simp
  show "\<exists>mem'. vfs_getdents64 sz dir 0 mem bsize
                      = Inr (int (total_size sz dir), int (length dir), mem')
                  \<and> records_at sz mem' dir"
    using vfs_getdents64_emits [OF sz ok B mapped kk some] by auto
qed

lemma dir_abc_ok:
  "\<forall>v\<in>set dir_abc. rec_size 24 v < 2 ^ 16 \<and> type v \<noteq> VFS_NONE"
  by (simp add: dir_abc_def rec_size_def strlen_def)

theorem vfs_getdents64_resumable_witness:
  "(\<exists>m. vfs_getdents64 24 dir_abc 0 (replicate 28 0) 28 = Inr (26, 1, m)
        \<and> record_at 24 m 0 (dir_abc ! 0))
   \<and> vfs_getdents64 24 dir_abc 0 (replicate 28 0) 25 = Inr (- EINVAL, 0, replicate 28 0)
   \<and> (\<exists>m. getdents_calls 24 dir_abc (replicate 28 0) 28 3 0 ! 1 = (27, 2, m)
        \<and> record_at 24 m 0 (dir_abc ! 1))
   \<and> (\<exists>m. vfs_getdents64 24 dir_abc 0 (replicate 81 0) 81 = Inr (81, 3, m)
        \<and> records_at 24 m dir_abc)"
proof -
  have sz: "19 \<le> (24::nat)" by simp
  have sizes [simp]: "rec_size 24 (dir_abc ! 0) = 26" "rec_size 24 (dir_abc ! Suc 0) = 27"
      "rec_size 24 (dir_abc ! 2) = 28" "rec_size 24 (hd dir_abc) = 26"
    by (simp_all add: dir_abc_def rec_size_def strlen_def)
  have len [simp]: "length dir_abc = 3" "dir_abc \<noteq> []" by (simp_all add: dir_abc_def)
  have tot [simp]: "total_size 24 dir_abc = 81"
    by (simp add: total_size_def dir_abc_def rec_size_def strlen_def)
  have T: "26 = total_size 24 (take 1 (drop 0 dir_abc))"
    by (simp add: total_size_def dir_abc_def rec_size_def strlen_def)
  have B28: "unat (28::u32) < 2 ^ 31" and m28: "unat (28::u32) \<le> length (replicate 28 (0::u8))"
    by simp_all
  have one: "one_entry_buffer 24 dir_abc (unat (28::u32))"
    unfolding one_entry_buffer_def
    by (simp add: lessThan_nat_numeral lessThan_Suc dir_abc_def rec_size_def strlen_def)
  have k28: "1 = fit_count 24 (unat (28::u32)) 0 (drop 0 dir_abc)"
    by (simp add: dir_abc_def rec_size_def strlen_def)
  have a: "\<exists>m. vfs_getdents64 24 dir_abc 0 (replicate 28 0) 28 = Inr (26, 1, m)
        \<and> record_at 24 m 0 (dir_abc ! 0)"
    using vfs_getdents64_resumable [OF sz dir_abc_ok B28 m28 refl k28 T]
    by (auto simp add: records_at_def)
  have b: "vfs_getdents64 24 dir_abc 0 (replicate 28 0) 25 = Inr (- EINVAL, 0, replicate 28 0)"
    using vfs_getdents64_resumable [OF sz dir_abc_ok, of 25 "replicate 28 0"
        "drop 0 dir_abc" 0 _ _, OF _ _ refl refl refl]
    by simp
  have c: "\<exists>m. getdents_calls 24 dir_abc (replicate 28 0) 28 3 0 ! 1 = (27, 2, m)
        \<and> record_at 24 m 0 (dir_abc ! 1)"
  proof -
    have "\<forall>i<length dir_abc. \<exists>m.
            getdents_calls 24 dir_abc (replicate 28 0) 28 (length dir_abc) 0 ! i
              = (int (rec_size 24 (dir_abc ! i)), int (Suc i), m)
            \<and> record_at 24 m 0 (dir_abc ! i)"
      using vfs_getdents64_resumable [OF sz dir_abc_ok B28 m28 refl k28 T] one by blast
    from this [rule_format, of 1] show ?thesis by simp
  qed
  have d: "\<exists>m. vfs_getdents64 24 dir_abc 0 (replicate 81 0) 81 = Inr (81, 3, m)
        \<and> records_at 24 m dir_abc"
    using vfs_getdents64_resumable [OF sz dir_abc_ok, of 81 "replicate 81 0"
        "drop 0 dir_abc" 0 _ _, OF _ _ refl refl refl]
    by simp
  show ?thesis using a b c d by (intro conjI)
qed

text \<open>
  Claim C10. A fault of the copy to user memory does not undo what the call did. Let
  \<open>k\<close> pending records lie in mapped memory, and let the next record fit in
  \<open>bsize\<close> bytes while its header or its name reaches beyond the mapped memory. Then
  \<^verbatim>\<open>vfs_getdents64\<close> returns \<^verbatim>\<open>-EFAULT\<close>, whatever the number \<open>T\<close> of bytes written
  before; the \<open>k\<close> records stay in the user memory and the position has moved to
  \<open>q + k\<close>. A second call from there with a mapped buffer begins with the record at
  which the first one failed (it returns \<open>k2 > 0\<close> records, the entry \<open>pending ! k\<close>
  first), so the \<open>k\<close> entries are not returned again.
\<close>

theorem vfs_getdents64_fault_keeps_progress:
  assumes sz: "19 \<le> sz"
      and ok: "\<forall>v\<in>set dir. rec_size sz v < 2 ^ 16 \<and> type v \<noteq> VFS_NONE"
      and B: "unat bsize < 2 ^ 31"
      and pending: "pending = drop q dir"
      and k: "k < length pending"
      and T: "T = total_size sz (take k pending)"
      and fit: "T + rec_size sz (pending ! k) \<le> unat bsize"
      and inside: "T \<le> length mem"
      and fault: "length mem < T + sz \<or> length mem < T + strlen (name (pending ! k)) + 20"
      and k2: "k2 = fit_count sz (unat bsize) 0 (drop k pending)"
  shows "(\<exists>mem'. vfs_getdents64 sz dir (int q) mem bsize = Inr (- EFAULT, int (q + k), mem')
              \<and> length mem' = length mem
              \<and> records_at sz mem' (take k pending))
       \<and> 0 < k2
       \<and> (\<forall>mem2. unat bsize \<le> length mem2 \<longrightarrow>
            (\<exists>mem3. vfs_getdents64 sz dir (int (q + k)) mem2 bsize
                       = Inr (int (total_size sz (take k2 (drop k pending))),
                              int (q + k + k2), mem3)
                   \<and> record_at sz mem3 0 (pending ! k)))"
proof (intro conjI allI impI)
  have kq: "q + k < length dir" using k unfolding pending by simp
  have v: "pending ! k = dir ! (q + k)" using kq unfolding pending by simp
  show "\<exists>mem'. vfs_getdents64 sz dir (int q) mem bsize = Inr (- EFAULT, int (q + k), mem')
              \<and> length mem' = length mem
              \<and> records_at sz mem' (take k pending)"
    using vfs_getdents64_faults [OF sz ok B kq] fit inside fault
    unfolding T pending v [unfolded pending] by simp
  have dk: "drop k pending = pending ! k # drop (Suc k) pending"
    using k by (simp add: Cons_nth_drop_Suc)
  have one: "rec_size sz (pending ! k) \<le> unat bsize" using fit by simp
  show pos: "0 < k2" unfolding k2 dk using one by simp
  fix mem2 :: "u8 list"
  assume mapped: "unat bsize \<le> length mem2"
  have dd: "drop (q + k) dir = drop k pending" unfolding pending by (simp add: add.commute)
  have kk: "k2 = fit_count sz (unat bsize) 0 (drop (q + k) dir)" unfolding k2 dd ..
  have some: "\<not> (k2 = 0 \<and> drop (q + k) dir \<noteq> [])" using pos by simp
  obtain mem3 where
    r: "vfs_getdents64 sz dir (int (q + k)) mem2 bsize
          = Inr (int (total_size sz (take k2 (drop (q + k) dir))), int (q + k + k2), mem3)"
    and ra: "records_at sz mem3 (take k2 (drop (q + k) dir))"
    using vfs_getdents64_emits [OF sz ok B mapped kk some] by blast
  have l0: "0 \<in> {..<length (take k2 (drop k pending))}" using pos k by simp
  have "record_at sz mem3 (total_size sz (take 0 (take k2 (drop k pending))))
          (take k2 (drop k pending) ! 0)"
    using ra l0 unfolding records_at_def dd by (rule bspec)
  moreover have "take k2 (drop k pending) ! 0 = pending ! k"
    using pos k by (simp add: nth_take)
  ultimately have "record_at sz mem3 0 (pending ! k)" by simp
  then show "\<exists>mem3. vfs_getdents64 sz dir (int (q + k)) mem2 bsize
                       = Inr (int (total_size sz (take k2 (drop k pending))),
                              int (q + k + k2), mem3)
                   \<and> record_at sz mem3 0 (pending ! k)"
    using r unfolding dd by (intro exI [of _ mem3]) simp
qed

theorem vfs_getdents64_fault_keeps_progress_witness:
  "(\<exists>m. vfs_getdents64 24 dir_abc 0 (replicate 30 0) 64 = Inr (- EFAULT, 1, m)
        \<and> record_at 24 m 0 (dir_abc ! 0))
   \<and> (\<exists>m. vfs_getdents64 24 dir_abc 1 (replicate 64 0) 64 = Inr (55, 3, m)
        \<and> record_at 24 m 0 (dir_abc ! 1))"
proof -
  have sz: "19 \<le> (24::nat)" by simp
  have B: "unat (64::u32) < 2 ^ 31" by simp
  have k: "1 < length (drop 0 dir_abc)" by (simp add: dir_abc_def)
  have T: "26 = total_size 24 (take 1 (drop 0 dir_abc))"
    by (simp add: total_size_def dir_abc_def rec_size_def strlen_def)
  have fit: "26 + rec_size 24 (drop 0 dir_abc ! 1) \<le> unat (64::u32)"
    by (simp add: dir_abc_def rec_size_def strlen_def)
  have inside: "26 \<le> length (replicate 30 (0::u8))" by simp
  have fault: "length (replicate 30 (0::u8)) < 26 + 24
       \<or> length (replicate 30 (0::u8)) < 26 + strlen (name (drop 0 dir_abc ! 1)) + 20"
    by simp
  have k2: "2 = fit_count 24 (unat (64::u32)) 0 (drop 1 (drop 0 dir_abc))"
    by (simp add: dir_abc_def rec_size_def strlen_def)
  have t2: "total_size 24 (take 2 (drop (Suc 0) dir_abc)) = 55"
    by (simp add: total_size_def dir_abc_def rec_size_def strlen_def)
  note th = vfs_getdents64_fault_keeps_progress
      [where mem = "replicate 30 0", OF sz dir_abc_ok B refl k T fit inside fault k2]
  have a: "\<exists>m. vfs_getdents64 24 dir_abc 0 (replicate 30 0) 64 = Inr (- EFAULT, 1, m)
        \<and> record_at 24 m 0 (dir_abc ! 0)"
    using th by (auto simp add: records_at_def dir_abc_def)
  have b: "\<exists>m. vfs_getdents64 24 dir_abc 1 (replicate 64 0) 64 = Inr (55, 3, m)
        \<and> record_at 24 m 0 (dir_abc ! 1)"
    using conjunct2 [OF conjunct2 [OF th], rule_format, of "replicate 64 0"]
    by (simp add: t2)
  show ?thesis using a b by (intro conjI)
qed

end
